theory Spec2Isabelle
  imports Main "HOL-Library.Word" "HOL-Library.Signed_Division"
begin

unbundle bit_operations_syntax

section \<open>Machine types and memory\<close>

text \<open>
  Modelled from the spec: the header \<^verbatim>\<open>memory_pool.hpp\<close>, which declares
  \<^verbatim>\<open>MemoryPoolBase::uint_t\<close>, the members of \<^verbatim>\<open>MemoryPoolBase\<close> and
  \<^verbatim>\<open>MemoryPoolStats\<close>, is not among the sources. The spec stores the free-list link in
  ``the first machine word'' of a slot and its scenarios use 4-byte entries laid out back to
  back, so \<^verbatim>\<open>uint_t\<close> is taken to be a 32-bit unsigned integer. Pointers are 64-bit
  addresses, \<^verbatim>\<open>nullptr\<close> is address 0, and a \<^verbatim>\<open>uint_t\<close> is stored in memory
  as four bytes, least significant first.
\<close>

type_synonym uint_t = "32 word"
type_synonym addr = "64 word"
type_synonym byte = "8 word"

definition uint_bytes :: "uint_t \<Rightarrow> byte list" where
  "uint_bytes v = [ucast v, ucast (drop_bit 8 v), ucast (drop_bit 16 v), ucast (drop_bit 24 v)]"

definition bytes_uint :: "byte list \<Rightarrow> uint_t" where
  "bytes_uint bs =
     ucast (bs ! 0) OR push_bit 8 (ucast (bs ! 1)) OR push_bit 16 (ucast (bs ! 2))
       OR push_bit 24 (ucast (bs ! 3))"

definition write_bytes :: "'a list \<Rightarrow> nat \<Rightarrow> 'a list \<Rightarrow> 'a list" where
  "write_bytes xs off bs = take off xs @ bs @ drop (off + length bs) xs"

definition read_bytes :: "'a list \<Rightarrow> nat \<Rightarrow> nat \<Rightarrow> 'a list" where
  "read_bytes xs off len = take len (drop off xs)"

text \<open>
  Undefined behaviour of the C++ program is a value of the model: an access through a null
  pointer or outside the block, a division by zero, a failed \<^verbatim>\<open>assert\<close> (the
  assertions are taken as compiled in). An access that is inside the block but not aligned to
  4 bytes is taken to succeed, as it does on x86-64.
\<close>

datatype fault = BadAccess addr | DivideByZero | AssertionFailed

section \<open>The pool\<close>

text \<open>
  The members of \<^verbatim>\<open>MemoryPoolBase\<close>, and with them the bytes of the block that
  \<^verbatim>\<open>pool_mem_\<close> points to (empty when \<^verbatim>\<open>pool_mem_\<close> is null).
\<close>

record MemoryPoolBase =
  max_entries :: uint_t
  entry_size :: uint_t
  num_free_entries :: uint_t
  pool_mem :: addr
  next_free :: addr
  block :: "byte list"

record MemoryPoolStats =
  block_count :: nat
  allocation_count :: nat

definition MIN_BLOCK_ALIGN :: nat where
  "MIN_BLOCK_ALIGN = 64"

text \<open>
  \<^verbatim>\<open>malloc_block\<close> wraps \<^verbatim>\<open>posix_memalign\<close>: the model takes it as a parameter,
  a function from the requested size and alignment to the returned pointer and the bytes found
  there. \<open>malloc_block_ok\<close> is the contract of \<^verbatim>\<open>posix_memalign\<close> for one call:
  null and no storage, or an aligned block of the requested size that ends below the top of the
  address space.
\<close>

type_synonym allocator = "nat \<Rightarrow> nat \<Rightarrow> addr \<times> byte list"

definition malloc_block_ok :: "nat \<Rightarrow> nat \<Rightarrow> addr \<times> byte list \<Rightarrow> bool" where
  "malloc_block_ok block_size alignment r =
     (if fst r = 0 then snd r = []
      else length (snd r) = block_size \<and> unat (fst r) mod alignment = 0
             \<and> unat (fst r) + block_size < 2 ^ 64)"

definition is_aligned :: "addr \<Rightarrow> nat \<Rightarrow> bool" where
  "is_aligned ptr align = (ptr AND (word_of_nat align - 1) = 0)"

definition element_at :: "MemoryPoolBase \<Rightarrow> uint_t \<Rightarrow> addr" where
  "element_at s index = pool_mem s + ucast (index * entry_size s)"

text \<open>
  \<^verbatim>\<open>(ptr - pool_mem_) / entry_size_\<close>: the difference is a signed 64-bit
  \<^verbatim>\<open>ptrdiff_t\<close>, the divisor is promoted to it, the quotient truncates towards zero
  and is then narrowed to \<^verbatim>\<open>uint_t\<close>.
\<close>

definition index_of :: "MemoryPoolBase \<Rightarrow> addr \<Rightarrow> fault + uint_t" where
  "index_of s ptr =
     (if entry_size s = 0 then Inl DivideByZero
      else Inr (word_of_int (sint (ptr - pool_mem s) sdiv uint (entry_size s))))"

text \<open>
  \<open>accessible s ptr len\<close>: the \<open>len\<close> bytes at \<open>ptr\<close> lie inside the block. The
  constructor, \<^verbatim>\<open>allocate\<close> and \<^verbatim>\<open>deallocate\<close> read and write a
  \<^verbatim>\<open>uint_t\<close> through \<^verbatim>\<open>reinterpret_cast<uint_t *>\<close>: these are
  \<open>load_uint\<close> and \<open>store_uint\<close>.
\<close>

definition accessible :: "MemoryPoolBase \<Rightarrow> addr \<Rightarrow> nat \<Rightarrow> bool" where
  "accessible s ptr len =
     (pool_mem s \<noteq> 0 \<and> unat (pool_mem s) \<le> unat ptr
        \<and> unat ptr + len \<le> unat (pool_mem s) + length (block s))"

definition load_uint :: "MemoryPoolBase \<Rightarrow> addr \<Rightarrow> fault + uint_t" where
  "load_uint s ptr =
     (if accessible s ptr 4
      then Inr (bytes_uint (read_bytes (block s) (unat ptr - unat (pool_mem s)) 4))
      else Inl (BadAccess ptr))"

definition store_uint :: "MemoryPoolBase \<Rightarrow> addr \<Rightarrow> uint_t \<Rightarrow> fault + MemoryPoolBase" where
  "store_uint s ptr v =
     (if accessible s ptr 4
      then Inr (s\<lparr>block := write_bytes (block s) (unat ptr - unat (pool_mem s)) (uint_bytes v)\<rparr>)
      else Inl (BadAccess ptr))"

text \<open>The loop of the constructor, lines 75 to 79, from index \<open>i\<close> on.\<close>

function init_free_list :: "MemoryPoolBase \<Rightarrow> uint_t \<Rightarrow> fault + MemoryPoolBase" where
  "init_free_list s i =
     (if i < max_entries s
      then (case store_uint s (element_at s i) (i + 1) of
              Inl f \<Rightarrow> Inl f
            | Inr s' \<Rightarrow> init_free_list s' (i + 1))
      else Inr s)"
  by pat_completeness auto
termination
proof (relation "measure (\<lambda>(s, i). unat (max_entries s) - unat i)")
  show "wf (measure (\<lambda>(s, i). unat (max_entries s) - unat i))" by simp
next
  fix s :: MemoryPoolBase and i :: uint_t and s' :: MemoryPoolBase
  assume lt: "i < max_entries s" and st: "store_uint s (element_at s i) (i + 1) = Inr s'"
  have m: "max_entries s' = max_entries s"
    using st by (auto simp: store_uint_def split: if_splits)
  have "unat i < unat (max_entries s)" using lt by (simp add: word_less_nat_alt)
  moreover have "unat (max_entries s) < 2 ^ 32"
    using unsigned_less [of "max_entries s", where 'a = nat] by simp
  ultimately have "unat (i + 1) = unat i + 1"
    by (simp add: unat_word_ariths)
  with \<open>unat i < unat (max_entries s)\<close> show "((s', i + 1), (s, i)) \<in> measure (\<lambda>(s, i). unat (max_entries s) - unat i)"
    using m by simp
qed

text \<open>
  The constructor: the member initialisers in the order the source lists them (so that
  \<^verbatim>\<open>pool_mem_\<close> is set before \<^verbatim>\<open>next_free_\<close> copies it), then the loop.
  The block size \<^verbatim>\<open>max_entries * entry_size\<close> is computed in \<^verbatim>\<open>uint_t\<close>
  and wraps around. Nothing checks the pointer \<^verbatim>\<open>malloc_block\<close> returns.
\<close>

definition MemoryPoolBase_ctor :: "allocator \<Rightarrow> uint_t \<Rightarrow> uint_t \<Rightarrow> fault + MemoryPoolBase" where
  "MemoryPoolBase_ctor malloc_block entry_size' max_entries' =
     (let mb = malloc_block (unat (max_entries' * entry_size')) MIN_BLOCK_ALIGN
      in init_free_list
           \<lparr>max_entries = max_entries', entry_size = entry_size',
            num_free_entries = max_entries', pool_mem = fst mb, next_free = fst mb,
            block = snd mb\<rparr> 0)"

text \<open>The destructor: its assertion; releasing the block ends the model's run.\<close>

definition MemoryPoolBase_dtor :: "MemoryPoolBase \<Rightarrow> fault + unit" where
  "MemoryPoolBase_dtor s =
     (if num_free_entries s = max_entries s then Inr () else Inl AssertionFailed)"

definition get_stats :: "MemoryPoolBase \<Rightarrow> MemoryPoolStats" where
  "get_stats s =
     \<lparr>block_count = 1, allocation_count = unat (max_entries s - num_free_entries s)\<rparr>"

definition allocate :: "MemoryPoolBase \<Rightarrow> fault + (addr \<times> MemoryPoolBase)" where
  "allocate s =
     (if 1 < num_free_entries s
      then (case load_uint s (next_free s) of
              Inl f \<Rightarrow> Inl f
            | Inr link \<Rightarrow>
                Inr (next_free s,
                     s\<lparr>num_free_entries := num_free_entries s - 1,
                       next_free := element_at s link\<rparr>))
      else if num_free_entries s = 1
      then Inr (next_free s, s\<lparr>num_free_entries := 0, next_free := 0\<rparr>)
      else Inr (0, s))"

definition deallocate :: "MemoryPoolBase \<Rightarrow> addr \<Rightarrow> fault + MemoryPoolBase" where
  "deallocate s ptr =
     (if \<not> (pool_mem s \<le> ptr \<and> ptr < pool_mem s + ucast (entry_size s * max_entries s))
      then Inl AssertionFailed
      else (case (if next_free s \<noteq> 0 then index_of s (next_free s) else Inr (max_entries s)) of
              Inl f \<Rightarrow> Inl f
            | Inr index \<Rightarrow>
                (case store_uint s ptr index of
                   Inl f \<Rightarrow> Inl f
                 | Inr s1 \<Rightarrow>
                     Inr (s1\<lparr>next_free := ptr,
                             num_free_entries := num_free_entries s1 + 1\<rparr>))))"

section \<open>Runs of the pool\<close>

text \<open>\<open>k\<close> consecutive calls of \<^verbatim>\<open>allocate()\<close>, collecting the returned pointers.\<close>

fun allocate_n :: "nat \<Rightarrow> MemoryPoolBase \<Rightarrow> fault + (addr list \<times> MemoryPoolBase)" where
  "allocate_n 0 s = Inr ([], s)"
| "allocate_n (Suc k) s =
     (case allocate s of
        Inl f \<Rightarrow> Inl f
      | Inr (p, s1) \<Rightarrow>
          (case allocate_n k s1 of
             Inl f \<Rightarrow> Inl f
           | Inr (ps, s2) \<Rightarrow> Inr (p # ps, s2)))"

text \<open>The pointers returned by \<open>k\<close> calls of \<^verbatim>\<open>allocate()\<close> on a freshly constructed pool.\<close>

definition fresh_allocations :: "allocator \<Rightarrow> uint_t \<Rightarrow> uint_t \<Rightarrow> nat \<Rightarrow> fault + addr list" where
  "fresh_allocations malloc_block entry_size' max_entries' k =
     (case MemoryPoolBase_ctor malloc_block entry_size' max_entries' of
        Inl f \<Rightarrow> Inl f
      | Inr s \<Rightarrow> (case allocate_n k s of Inl f \<Rightarrow> Inl f | Inr (ps, s') \<Rightarrow> Inr ps))"

text \<open>Two allocators to run the model on: one that always returns a zero-filled block at
  address \<open>p\<close>, one that always fails.\<close>

definition zeroed_block_at :: "addr \<Rightarrow> allocator" where
  "zeroed_block_at p block_size alignment = (p, replicate block_size 0)"

definition failing_malloc :: allocator where
  "failing_malloc block_size alignment = (0, [])"

text \<open>
  What the caller of \<^verbatim>\<open>allocate()\<close> does with the entry at \<open>ptr\<close> while holding it:
  it stores a byte at some offset inside the entry (the typed pool constructs an object there).
\<close>

text \<open>(Outside the block the update leaves the list as it is; \<open>reachable\<close> below only uses
  it inside.)\<close>

definition caller_write :: "MemoryPoolBase \<Rightarrow> addr \<Rightarrow> nat \<Rightarrow> byte \<Rightarrow> MemoryPoolBase" where
  "caller_write s ptr off b = s\<lparr>block := (block s)[unat ptr - unat (pool_mem s) + off := b]\<rparr>"

text \<open>Several such writes, one after the other.\<close>

fun caller_writes :: "MemoryPoolBase \<Rightarrow> (addr \<times> nat \<times> byte) list \<Rightarrow> MemoryPoolBase" where
  "caller_writes s [] = s"
| "caller_writes s ((ptr, off, b) # ws) = caller_writes (caller_write s ptr off b) ws"

text \<open>
  The states a pool goes through when its callers keep to the contract, together with the set
  of addresses the callers hold. The pool is constructed with an allocator that keeps the
  contract of \<^verbatim>\<open>posix_memalign\<close>, with any entry size and capacity for which the
  constructor returns; \<^verbatim>\<open>deallocate\<close> is only called on an address that
  \<^verbatim>\<open>allocate\<close> returned and that has not been given back since; callers write to
  the entries they hold, and only to those.
\<close>

inductive reachable :: "MemoryPoolBase \<Rightarrow> addr set \<Rightarrow> bool" where
  construct:
    "malloc_block_ok (unat (n * es)) MIN_BLOCK_ALIGN
        (malloc_block (unat (n * es)) MIN_BLOCK_ALIGN) \<Longrightarrow>
     MemoryPoolBase_ctor malloc_block es n = Inr s \<Longrightarrow>
     reachable s {}"
| allocate:
    "reachable s live \<Longrightarrow> allocate s = Inr (p, s') \<Longrightarrow>
     reachable s' (if p = 0 then live else insert p live)"
| deallocate:
    "reachable s live \<Longrightarrow> p \<in> live \<Longrightarrow> deallocate s p = Inr s' \<Longrightarrow>
     reachable s' (live - {p})"
| store:
    "reachable s live \<Longrightarrow> p \<in> live \<Longrightarrow> off < unat (entry_size s) \<Longrightarrow>
     reachable (caller_write s p off b) live"

text \<open>
  A run of calls on a pool, as a program: the calls one after the other, with the addresses
  the caller holds. The run stops at the first fault of the pool, or at a
  \<^verbatim>\<open>deallocate\<close> of an address the caller does not hold (which the contract forbids).
  It returns the addresses the \<^verbatim>\<open>allocate\<close> calls returned, in order, the final
  pool and the addresses still held.
\<close>

datatype call = Allocate | Deallocate addr

datatype stop = Faulted fault | NotHeld addr

fun run :: "call list \<Rightarrow> MemoryPoolBase \<Rightarrow> addr list
    \<Rightarrow> stop + (addr list \<times> MemoryPoolBase \<times> addr list)" where
  "run [] s held = Inr ([], s, held)"
| "run (Allocate # cs) s held =
     (case allocate s of
        Inl f \<Rightarrow> Inl (Faulted f)
      | Inr (p, s') \<Rightarrow>
          (case run cs s' (if p = 0 then held else List.insert p held) of
             Inl e \<Rightarrow> Inl e
           | Inr (ps, s'', held') \<Rightarrow> Inr (p # ps, s'', held')))"
| "run (Deallocate p # cs) s held =
     (if p \<notin> set held then Inl (NotHeld p)
      else (case deallocate s p of
              Inl f \<Rightarrow> Inl (Faulted f)
            | Inr s' \<Rightarrow> run cs s' (removeAll p held)))"

text \<open>
  A run on a freshly constructed pool, and what is seen of the pool at its end: the addresses
  returned, the free count, the free head, the addresses still held and the words stored at
  the addresses \<open>qs\<close>.
\<close>

definition fresh_run :: "allocator \<Rightarrow> uint_t \<Rightarrow> uint_t \<Rightarrow> call list \<Rightarrow> addr list
    \<Rightarrow> stop + (addr list \<times> uint_t \<times> addr \<times> addr list \<times> (fault + uint_t) list)" where
  "fresh_run malloc_block entry_size' max_entries' cs qs =
     (case MemoryPoolBase_ctor malloc_block entry_size' max_entries' of
        Inl f \<Rightarrow> Inl (Faulted f)
      | Inr s \<Rightarrow>
          (case run cs s [] of
             Inl e \<Rightarrow> Inl e
           | Inr (ps, s', held) \<Rightarrow>
               Inr (ps, num_free_entries s', next_free s', held, map (load_uint s') qs)))"

section \<open>Invariants\<close>

text \<open>
  The entry with index \<open>i\<close>, for a natural number \<open>i\<close>; a chain of free-list links
  through the entries \<open>fl\<close>, each storing the index of the next (what the last one stores
  is not constrained: \<^verbatim>\<open>allocate\<close> never reads it).
\<close>

definition slot :: "MemoryPoolBase \<Rightarrow> nat \<Rightarrow> addr" where
  "slot s i = element_at s (word_of_nat i)"

fun chain :: "MemoryPoolBase \<Rightarrow> nat list \<Rightarrow> bool" where
  "chain s (i # j # r) = (load_uint s (slot s i) = Inr (word_of_nat j) \<and> chain s (j # r))"
| "chain s r = True"

text \<open>
  \<open>fresh_after s k\<close>: the pool as constructed, after its first \<open>k\<close> allocations.
\<close>

definition fresh_after :: "MemoryPoolBase \<Rightarrow> nat \<Rightarrow> bool" where
  "fresh_after s k =
     (k \<le> unat (max_entries s)
      \<and> unat (num_free_entries s) = unat (max_entries s) - k
      \<and> (k < unat (max_entries s) \<longrightarrow> next_free s = slot s k)
      \<and> (\<forall>j. j < max_entries s \<longrightarrow>
             accessible s (element_at s j) 4 \<and> load_uint s (element_at s j) = Inr (j + 1)))"

text \<open>
  \<open>layout_ok s\<close>: the block has the size the pool assumes, \<open>max_entries * entry_size\<close>
  without wrap-around, it lies below the top of the address space, and a pool with entries has
  a non-null, 64-byte aligned block and entries that hold a link word.
\<close>

definition layout_ok :: "MemoryPoolBase \<Rightarrow> bool" where
  "layout_ok s =
     (unat (max_entries s) * unat (entry_size s) < 2 ^ 32
      \<and> length (block s) = unat (max_entries s) * unat (entry_size s)
      \<and> unat (pool_mem s) + unat (max_entries s) * unat (entry_size s) < 2 ^ 64
      \<and> (max_entries s \<noteq> 0 \<longrightarrow>
            pool_mem s \<noteq> 0 \<and> 4 \<le> unat (entry_size s) \<and> unat (pool_mem s) mod 64 = 0))"

text \<open>
  \<open>pool_inv s live fl\<close>: the free list is the chain \<open>fl\<close> of distinct entries starting at
  \<^verbatim>\<open>next_free_\<close>, \<^verbatim>\<open>num_free_entries_\<close> is its length, and the addresses
  held by the callers are those of the other entries.
\<close>

definition pool_inv :: "MemoryPoolBase \<Rightarrow> addr set \<Rightarrow> nat list \<Rightarrow> bool" where
  "pool_inv s live fl =
     (layout_ok s
      \<and> distinct fl \<and> set fl \<subseteq> {..<unat (max_entries s)}
      \<and> num_free_entries s = word_of_nat (length fl)
      \<and> chain s fl
      \<and> (fl \<noteq> [] \<longrightarrow> next_free s = slot s (hd fl))
      \<and> (max_entries s \<noteq> 0 \<and> fl = [] \<longrightarrow> next_free s = 0)
      \<and> live = slot s ` ({..<unat (max_entries s)} - set fl))"

text \<open>
  The states of a pool of two 4-byte entries in a block at address 64, to run the model on:
  \<open>example_pool 2 64\<close> is the pool as constructed, \<open>example_pool 1 68\<close> has entry 0
  allocated and \<open>example_pool 0 0\<close> both.
\<close>

definition example_pool :: "uint_t \<Rightarrow> addr \<Rightarrow> MemoryPoolBase" where
  "example_pool free head =
     \<lparr>max_entries = 2, entry_size = 4, num_free_entries = free, pool_mem = 64,
      next_free = head, block = [1, 0, 0, 0, 2, 0, 0, 0]\<rparr>"

section \<open>Bytes and words in memory\<close>

lemma bytes_uint_uint_bytes: "bytes_uint (uint_bytes v) = v"
proof (rule bit_word_eqI)
  fix k assume "k < LENGTH(32)"
  then have k: "k < 32" by simp
  consider "k < 8" | "8 \<le> k" "k < 16" | "16 \<le> k" "k < 24" | "24 \<le> k" "k < 32"
    using k by linarith
  then show "bit (bytes_uint (uint_bytes v)) k = bit v k"
    by cases (auto simp add: bytes_uint_def uint_bytes_def bit_simps)
qed

lemma length_uint_bytes: "length (uint_bytes v) = 4"
  by (simp add: uint_bytes_def)

lemma length_write_bytes:
  "off + length bs \<le> length xs \<Longrightarrow> length (write_bytes xs off bs) = length xs"
  by (simp add: write_bytes_def)

lemma read_write_same:
  "off + length bs \<le> length xs \<Longrightarrow> read_bytes (write_bytes xs off bs) off (length bs) = bs"
  by (simp add: write_bytes_def read_bytes_def)

lemma nth_write_bytes_other:
  assumes "off + length bs \<le> length xs" "k < off \<or> off + length bs \<le> k" "k < length xs"
  shows "write_bytes xs off bs ! k = xs ! k"
  using assms by (auto simp add: write_bytes_def nth_append)

lemma read_write_other:
  assumes "off + length bs \<le> length xs" "off' + len \<le> off \<or> off + length bs \<le> off'"
    "off' + len \<le> length xs"
  shows "read_bytes (write_bytes xs off bs) off' len = read_bytes xs off' len"
proof (rule nth_equalityI)
  show "length (read_bytes (write_bytes xs off bs) off' len) = length (read_bytes xs off' len)"
    using assms by (simp add: read_bytes_def length_write_bytes)
next
  fix i assume "i < length (read_bytes (write_bytes xs off bs) off' len)"
  then have i: "i < len" using assms by (simp add: read_bytes_def length_write_bytes)
  then have "write_bytes xs off bs ! (off' + i) = xs ! (off' + i)"
    using assms by (intro nth_write_bytes_other) auto
  then show "read_bytes (write_bytes xs off bs) off' len ! i = read_bytes xs off' len ! i"
    using i assms by (simp add: read_bytes_def length_write_bytes)
qed

lemma store_uint_fields:
  assumes "store_uint s ptr v = Inr s'"
  shows "max_entries s' = max_entries s" "entry_size s' = entry_size s"
    "num_free_entries s' = num_free_entries s" "pool_mem s' = pool_mem s"
    "next_free s' = next_free s" "length (block s') = length (block s)"
  using assms
  by (auto simp: store_uint_def accessible_def length_write_bytes length_uint_bytes
      split: if_splits)

lemma store_uint_accessible:
  "store_uint s p v = Inr s' \<Longrightarrow> accessible s' q len = accessible s q len"
  by (auto simp: store_uint_def accessible_def length_write_bytes length_uint_bytes
      split: if_splits)

lemma store_uint_Inr_iff: "(\<exists>s'. store_uint s p v = Inr s') = accessible s p 4"
  by (simp add: store_uint_def)

lemma load_store_same:
  assumes "store_uint s p v = Inr s'"
  shows "load_uint s' p = Inr v"
proof -
  have a: "accessible s p 4" using assms by (auto simp: store_uint_def split: if_splits)
  then have a': "accessible s' p 4" using assms by (simp add: store_uint_accessible)
  have b: "block s' = write_bytes (block s) (unat p - unat (pool_mem s)) (uint_bytes v)"
    and pm: "pool_mem s' = pool_mem s"
    using assms by (auto simp: store_uint_def split: if_splits)
  have "unat p - unat (pool_mem s) + length (uint_bytes v) \<le> length (block s)"
    using a unfolding accessible_def length_uint_bytes by linarith
  then have "read_bytes (block s') (unat p - unat (pool_mem s)) (length (uint_bytes v))
      = uint_bytes v"
    unfolding b by (rule read_write_same)
  then show ?thesis
    using a' pm by (simp add: load_uint_def length_uint_bytes bytes_uint_uint_bytes)
qed

lemma load_store_other:
  assumes "store_uint s p v = Inr s'"
    and "unat q + 4 \<le> unat p \<or> unat p + 4 \<le> unat q"
  shows "load_uint s' q = load_uint s q"
proof (cases "accessible s q 4")
  case False
  then show ?thesis using assms(1) by (simp add: load_uint_def store_uint_accessible)
next
  case True
  have a: "accessible s p 4" using assms by (auto simp: store_uint_def split: if_splits)
  have b: "block s' = write_bytes (block s) (unat p - unat (pool_mem s)) (uint_bytes v)"
    and pm: "pool_mem s' = pool_mem s"
    using assms by (auto simp: store_uint_def split: if_splits)
  have "read_bytes (block s') (unat q - unat (pool_mem s)) 4
      = read_bytes (block s) (unat q - unat (pool_mem s)) 4"
    unfolding b using a True assms(2)
    by (intro read_write_other) (auto simp add: accessible_def length_uint_bytes)
  then show ?thesis using True assms(1) pm by (simp add: load_uint_def store_uint_accessible)
qed

section \<open>Where the entries lie\<close>

lemma mod_add_cases:
  fixes a b M :: nat
  assumes "a < M" "b < M"
  shows "(a + b) mod M = (if a + b < M then a + b else a + b - M)"
  using assms by (simp add: mod_if)

text \<open>
  If every link word lies inside a block of \<open>n * e mod M\<close> bytes, no two of them overlap,
  even when the offsets \<open>k * e\<close> wrap around \<open>M\<close>.
\<close>

lemma offsets_apart:
  fixes e n i j M :: nat
  assumes M: "0 < M"
    and H: "\<And>k. k < n \<Longrightarrow> (k * e) mod M + 4 \<le> (n * e) mod M"
    and ij: "i < j" "j < n"
  shows "(i * e) mod M + 4 \<le> (j * e) mod M \<or> (j * e) mod M + 4 \<le> (i * e) mod M"
proof -
  define d where "d = j - i"
  define D where "D = (d * e) mod M"
  define a where "a = (i * e) mod M"
  define b where "b = (j * e) mod M"
  define c where "c = ((n - d) * e) mod M"
  define S where "S = (n * e) mod M"
  have d: "0 < d" "d < n" "n - d < n" using ij by (auto simp: d_def)
  have lt: "a < M" "D < M" "c < M" "S < M" using M by (simp_all add: a_def D_def c_def S_def)
  have "j * e = i * e + d * e" using ij by (simp add: d_def algebra_simps flip: add_mult_distrib)
  then have b: "b = (a + D) mod M" by (simp add: a_def b_def D_def mod_add_eq)
  have "n * e = (n - d) * e + d * e" using d by (simp flip: add_mult_distrib)
  then have S: "S = (c + D) mod M" by (simp add: c_def S_def D_def mod_add_eq)
  have HD: "D + 4 \<le> S" using H [OF d(2)] by (simp add: D_def S_def)
  have Hc: "c + 4 \<le> S" using H [OF d(3)] by (simp add: c_def S_def)
  have D4: "4 \<le> D"
    using S HD Hc lt unfolding mod_add_cases [OF lt(3) lt(2)] by (cases "c + D < M") simp_all
  have "a + 4 \<le> b \<or> b + 4 \<le> a"
  proof (cases "a + D < M")
    case True
    then have "b = a + D" using b lt by (simp add: mod_add_cases)
    with D4 show ?thesis by linarith
  next
    case False
    then have "b = a + D - M" using b lt by (simp add: mod_add_cases)
    moreover have "D + 4 < M" using HD lt by linarith
    ultimately show ?thesis using False by linarith
  qed
  then show ?thesis by (simp add: a_def b_def)
qed

lemma unat_lt32: "unat (w :: uint_t) < 4294967296"
  using unsigned_less [of w, where 'a = nat] by simp

lemma unat_lt64: "unat (w :: addr) < 18446744073709551616"
  using unsigned_less [of w, where 'a = nat] by simp

lemma unat_ucast_uint: "unat (ucast (w :: uint_t) :: addr) = unat w"
proof -
  have "unat w < 2 ^ 64" using unat_lt32 [of w] by simp
  then show ?thesis by (simp add: unsigned_ucast_eq take_bit_nat_eq_self)
qed

lemma unat_succ: "i < (m :: uint_t) \<Longrightarrow> unat (i + 1) = unat i + 1"
  using unat_lt32 [of m] by (simp add: unat_word_ariths word_less_nat_alt)

lemma element_at_accessible:
  assumes "accessible s (element_at s i) 4" "unat (pool_mem s) + length (block s) < 2 ^ 64"
  shows "unat (element_at s i) = unat (pool_mem s) + unat (i * entry_size s)"
    and "unat (i * entry_size s) + 4 \<le> length (block s)"
proof -
  let ?P = "unat (pool_mem s)" and ?o = "unat (i * entry_size s)"
  have e: "unat (element_at s i)
      = (if ?P + ?o < 2 ^ 64 then ?P + ?o else ?P + ?o - 2 ^ 64)"
    by (simp add: element_at_def unat_plus_if' unat_ucast_uint)
  have "?P + ?o < 2 ^ 64"
  proof (rule ccontr)
    assume "\<not> ?P + ?o < 2 ^ 64"
    then have "unat (element_at s i) = ?P + ?o - 2 ^ 64" using e by simp
    moreover have "?o < 2 ^ 64" using unat_lt32 [of "i * entry_size s"] by simp
    ultimately have "unat (element_at s i) < ?P" using \<open>\<not> ?P + ?o < 2 ^ 64\<close> by linarith
    then show False using assms(1) by (simp add: accessible_def)
  qed
  then show 1: "unat (element_at s i) = ?P + ?o" using e by simp
  show "?o + 4 \<le> length (block s)" using assms(1) unfolding accessible_def 1 by linarith
qed

lemma accessible_element_at:
  assumes "pool_mem s \<noteq> 0" "unat (pool_mem s) + length (block s) < 2 ^ 64"
    "unat (i * entry_size s) + 4 \<le> length (block s)"
  shows "accessible s (element_at s i) 4"
proof -
  let ?P = "unat (pool_mem s)" and ?o = "unat (i * entry_size s)"
  have "?P + ?o < 2 ^ 64" using assms by linarith
  then have "unat (element_at s i) = ?P + ?o"
    by (simp add: element_at_def unat_plus_if' unat_ucast_uint)
  then show ?thesis using assms by (simp add: accessible_def)
qed

section \<open>The constructor\<close>

declare init_free_list.simps [simp del]

lemma init_free_list_step:
  "init_free_list s i = Inr s' \<Longrightarrow> i < max_entries s \<Longrightarrow>
   \<exists>s1. store_uint s (element_at s i) (i + 1) = Inr s1 \<and> init_free_list s1 (i + 1) = Inr s'"
  by (subst (asm) init_free_list.simps) (auto split: sum.splits)

lemma init_free_list_stop:
  "\<not> i < max_entries s \<Longrightarrow> init_free_list s i = Inr s"
  by (subst init_free_list.simps) simp

lemma element_at_cong:
  "pool_mem s' = pool_mem s \<Longrightarrow> entry_size s' = entry_size s \<Longrightarrow> element_at s' = element_at s"
  by (rule ext) (simp add: element_at_def)

lemma init_free_list_fields:
  "init_free_list s i = Inr s' \<Longrightarrow>
   max_entries s' = max_entries s \<and> entry_size s' = entry_size s
   \<and> num_free_entries s' = num_free_entries s \<and> pool_mem s' = pool_mem s
   \<and> next_free s' = next_free s \<and> length (block s') = length (block s)"
proof (induction s i rule: init_free_list.induct)
  case (1 s i)
  show ?case
  proof (cases "i < max_entries s")
    case True
    from init_free_list_step [OF "1.prems" True] obtain s1
      where s1: "store_uint s (element_at s i) (i + 1) = Inr s1"
        and r: "init_free_list s1 (i + 1) = Inr s'" by blast
    from "1.IH" [OF True s1 r] store_uint_fields [OF s1] show ?thesis by simp
  next
    case False
    then show ?thesis using "1.prems" by (simp add: init_free_list_stop)
  qed
qed

lemma init_free_list_accessible:
  "init_free_list s i = Inr s' \<Longrightarrow> i \<le> j \<Longrightarrow> j < max_entries s \<Longrightarrow>
   accessible s (element_at s j) 4"
proof (induction s i rule: init_free_list.induct)
  case (1 s i)
  have lt: "i < max_entries s" using "1.prems" by simp
  from init_free_list_step [OF "1.prems"(1) lt] obtain s1
    where s1: "store_uint s (element_at s i) (i + 1) = Inr s1"
      and r: "init_free_list s1 (i + 1) = Inr s'" by blast
  note f = store_uint_fields [OF s1]
  show ?case
  proof (cases "j = i")
    case True
    then show ?thesis using s1 store_uint_Inr_iff by blast
  next
    case False
    then have "unat i < unat j" using "1.prems"(2) by (simp add: word_le_nat_alt word_eq_iff_unsigned [where 'a = nat])
    then have "i + 1 \<le> j" using unat_succ [OF lt] by (simp add: word_le_nat_alt)
    moreover have "j < max_entries s1" using "1.prems"(3) f by simp
    ultimately have "accessible s1 (element_at s1 j) 4" using "1.IH" [OF lt s1 r] by simp
    then show ?thesis
      using f by (simp add: store_uint_accessible [OF s1] element_at_cong [of s1 s])
  qed
qed

lemma init_free_list_links:
  assumes "init_free_list s i = Inr s'"
    and "\<And>j k. j < max_entries s \<Longrightarrow> k < max_entries s \<Longrightarrow> j \<noteq> k \<Longrightarrow>
           unat (element_at s j) + 4 \<le> unat (element_at s k)
           \<or> unat (element_at s k) + 4 \<le> unat (element_at s j)"
  shows "(i \<le> j \<and> j < max_entries s \<longrightarrow> load_uint s' (element_at s j) = Inr (j + 1))
       \<and> (j < i \<and> j < max_entries s \<longrightarrow> load_uint s' (element_at s j) = load_uint s (element_at s j))"
  using assms
proof (induction s i rule: init_free_list.induct)
  case (1 s i)
  show ?case
  proof (cases "i < max_entries s")
    case False
    then have "s' = s" using "1.prems"(1) by (simp add: init_free_list_stop)
    show ?thesis
    proof (intro conjI impI)
      assume "i \<le> j \<and> j < max_entries s"
      with False have False by (simp add: word_le_nat_alt word_less_nat_alt)
      then show "load_uint s' (element_at s j) = Inr (j + 1)" ..
    next
      show "load_uint s' (element_at s j) = load_uint s (element_at s j)"
        using \<open>s' = s\<close> by simp
    qed
  next
    case lt: True
    from init_free_list_step [OF "1.prems"(1) lt] obtain s1
      where s1: "store_uint s (element_at s i) (i + 1) = Inr s1"
        and r: "init_free_list s1 (i + 1) = Inr s'" by blast
    note f = store_uint_fields [OF s1]
    have el: "element_at s1 = element_at s" by (rule element_at_cong) (simp_all add: f)
    have IH: "(i + 1 \<le> j \<and> j < max_entries s \<longrightarrow> load_uint s' (element_at s j) = Inr (j + 1))
       \<and> (j < i + 1 \<and> j < max_entries s \<longrightarrow> load_uint s' (element_at s j) = load_uint s1 (element_at s j))"
    proof -
      have d1: "unat (element_at s1 j) + 4 \<le> unat (element_at s1 k)
           \<or> unat (element_at s1 k) + 4 \<le> unat (element_at s1 j)"
        if "j < max_entries s1" "k < max_entries s1" "j \<noteq> k" for j k
        using "1.prems"(2) [of j k] that by (simp add: el f(1))
      show ?thesis using "1.IH" [OF lt s1 r d1] by (simp add: el f(1))
    qed
    have succ: "unat (i + 1) = unat i + 1" by (rule unat_succ [OF lt])
    show ?thesis
    proof (intro conjI impI)
      assume a: "i \<le> j \<and> j < max_entries s"
      show "load_uint s' (element_at s j) = Inr (j + 1)"
      proof (cases "j = i")
        case True
        then have "j < i + 1" using succ by (simp add: word_less_nat_alt)
        then have "load_uint s' (element_at s j) = load_uint s1 (element_at s j)"
          using IH a by blast
        then show ?thesis using True load_store_same [OF s1] by simp
      next
        case False
        then have "unat i < unat j" using a by (simp add: word_le_nat_alt word_eq_iff_unsigned [where 'a = nat])
        then have "i + 1 \<le> j" using succ by (simp add: word_le_nat_alt)
        then show ?thesis using IH a by blast
      qed
    next
      assume a: "j < i \<and> j < max_entries s"
      then have "j < i + 1" using succ by (simp add: word_less_nat_alt)
      then have "load_uint s' (element_at s j) = load_uint s1 (element_at s j)"
        using IH a by blast
      moreover have "j \<noteq> i" using a by auto
      then have "unat (element_at s j) + 4 \<le> unat (element_at s i)
           \<or> unat (element_at s i) + 4 \<le> unat (element_at s j)"
        using "1.prems"(2) [of j i] a lt by blast
      then have "load_uint s1 (element_at s j) = load_uint s (element_at s j)"
        by (rule load_store_other [OF s1])
      ultimately show "load_uint s' (element_at s j) = load_uint s (element_at s j)" by simp
    qed
  qed
qed

lemma ctor_unfold:
  assumes "MemoryPoolBase_ctor malloc_block es n = Inr s"
  defines "mb \<equiv> malloc_block (unat (n * es)) MIN_BLOCK_ALIGN"
  shows "max_entries s = n" "entry_size s = es" "num_free_entries s = n"
    "pool_mem s = fst mb" "next_free s = fst mb" "length (block s) = length (snd mb)"
    "\<And>j. j < n \<Longrightarrow> accessible s (element_at s j) 4"
proof -
  let ?s0 = "\<lparr>max_entries = n, entry_size = es, num_free_entries = n, pool_mem = fst mb,
      next_free = fst mb, block = snd mb\<rparr>"
  have i: "init_free_list ?s0 0 = Inr s"
    using assms(1) by (simp add: MemoryPoolBase_ctor_def mb_def Let_def)
  note f = init_free_list_fields [OF i]
  show "max_entries s = n" "entry_size s = es" "num_free_entries s = n"
    "pool_mem s = fst mb" "next_free s = fst mb" "length (block s) = length (snd mb)"
    using f by simp_all
  fix j assume "j < n"
  then have "accessible ?s0 (element_at ?s0 j) 4"
    using init_free_list_accessible [OF i, of j] by simp
  moreover have "element_at s = element_at ?s0" by (rule element_at_cong) (simp_all add: f)
  ultimately show "accessible s (element_at s j) 4"
    using f by (simp add: accessible_def)
qed

lemma ctor_block:
  assumes c: "MemoryPoolBase_ctor malloc_block es n = Inr s"
    and ok: "malloc_block_ok (unat (n * es)) MIN_BLOCK_ALIGN
               (malloc_block (unat (n * es)) MIN_BLOCK_ALIGN)"
    and n: "n \<noteq> 0"
  shows "pool_mem s \<noteq> 0" "length (block s) = unat (n * es)"
    "unat (pool_mem s) + length (block s) < 2 ^ 64" "unat (pool_mem s) mod 64 = 0"
proof -
  have "0 < n" using n by (simp add: word_greater_zero_iff)
  then have "accessible s (element_at s 0) 4" by (rule ctor_unfold(7) [OF c])
  then show nz: "pool_mem s \<noteq> 0" by (simp add: accessible_def)
  then have "fst (malloc_block (unat (n * es)) MIN_BLOCK_ALIGN) \<noteq> 0"
    using ctor_unfold(4) [OF c] by simp
  then show "length (block s) = unat (n * es)"
    "unat (pool_mem s) + length (block s) < 2 ^ 64" "unat (pool_mem s) mod 64 = 0"
    using ok ctor_unfold(4,6) [OF c] by (simp_all add: malloc_block_ok_def MIN_BLOCK_ALIGN_def)
qed

lemma ctor_apart:
  assumes c: "MemoryPoolBase_ctor malloc_block es n = Inr s"
    and ok: "malloc_block_ok (unat (n * es)) MIN_BLOCK_ALIGN
               (malloc_block (unat (n * es)) MIN_BLOCK_ALIGN)"
    and jk: "j < n" "k < n" "j \<noteq> k"
  shows "unat (element_at s j) + 4 \<le> unat (element_at s k)
       \<or> unat (element_at s k) + 4 \<le> unat (element_at s j)"
proof -
  have n: "n \<noteq> 0" using jk by auto
  note b = ctor_block [OF c ok n]
  note f = ctor_unfold [OF c]
  let ?M = "4294967296 :: nat"
  have off: "unat (i * es) = (unat i * unat es) mod ?M" for i :: uint_t
    by (simp add: unat_word_ariths)
  have H: "(i * unat es) mod ?M + 4 \<le> (unat n * unat es) mod ?M" if "i < unat n" for i
  proof -
    have "i < ?M" using that unat_lt32 [of n] by simp
    then have u: "unat (word_of_nat i :: uint_t) = i" by (simp add: unsigned_of_nat take_bit_nat_eq_self)
    then have "word_of_nat i < n" using that by (simp add: word_less_nat_alt)
    then have "accessible s (element_at s (word_of_nat i)) 4" by (rule f(7))
    then have "unat (word_of_nat i * entry_size s) + 4 \<le> length (block s)"
      using b(3) by (rule element_at_accessible(2))
    then show ?thesis using u by (simp add: b(2) f(2) off)
  qed
  have ea: "unat (element_at s i) = unat (pool_mem s) + (unat i * unat es) mod ?M"
    if "i < n" for i
    using element_at_accessible(1) [OF f(7) [OF that] b(3)] by (simp add: off f(2))
  have ne: "unat j \<noteq> unat k" using jk(3) by (simp add: word_eq_iff_unsigned [where 'a = nat])
  have lt: "unat j < unat n" "unat k < unat n" using jk by (simp_all add: word_less_nat_alt)
  consider "unat j < unat k" | "unat k < unat j" using ne by linarith
  then have "(unat j * unat es) mod ?M + 4 \<le> (unat k * unat es) mod ?M
      \<or> (unat k * unat es) mod ?M + 4 \<le> (unat j * unat es) mod ?M"
  proof cases
    case 1
    show ?thesis by (rule offsets_apart [OF _ H 1 lt(2)]) simp_all
  next
    case 2
    have "(unat k * unat es) mod ?M + 4 \<le> (unat j * unat es) mod ?M
      \<or> (unat j * unat es) mod ?M + 4 \<le> (unat k * unat es) mod ?M"
      by (rule offsets_apart [OF _ H 2 lt(1)]) simp_all
    then show ?thesis by blast
  qed
  then show ?thesis unfolding ea [OF jk(1)] ea [OF jk(2)] by linarith
qed

lemma ctor_links:
  assumes c: "MemoryPoolBase_ctor malloc_block es n = Inr s"
    and ok: "malloc_block_ok (unat (n * es)) MIN_BLOCK_ALIGN
               (malloc_block (unat (n * es)) MIN_BLOCK_ALIGN)"
    and j: "j < n"
  shows "load_uint s (element_at s j) = Inr (j + 1)"
proof -
  define mb where "mb = malloc_block (unat (n * es)) MIN_BLOCK_ALIGN"
  let ?s0 = "\<lparr>max_entries = n, entry_size = es, num_free_entries = n, pool_mem = fst mb,
      next_free = fst mb, block = snd mb\<rparr>"
  have i: "init_free_list ?s0 0 = Inr s"
    using c by (simp add: MemoryPoolBase_ctor_def mb_def Let_def)
  note f = init_free_list_fields [OF i]
  have el: "element_at s = element_at ?s0" by (rule element_at_cong) (simp_all add: f)
  have ap: "unat (element_at ?s0 j) + 4 \<le> unat (element_at ?s0 k)
       \<or> unat (element_at ?s0 k) + 4 \<le> unat (element_at ?s0 j)"
    if "j < max_entries ?s0" "k < max_entries ?s0" "j \<noteq> k" for j k
    using ctor_apart [OF c ok, of j k] that by (simp add: el)
  have "0 \<le> j \<and> j < max_entries ?s0" using j by simp
  then show ?thesis using init_free_list_links [OF i ap, of j] by (simp add: el)
qed

lemma init_free_list_succeeds:
  "(\<And>j. i \<le> j \<Longrightarrow> j < max_entries s \<Longrightarrow> accessible s (element_at s j) 4) \<Longrightarrow>
   \<exists>s'. init_free_list s i = Inr s'"
proof (induction s i rule: init_free_list.induct)
  case (1 s i)
  show ?case
  proof (cases "i < max_entries s")
    case False
    then show ?thesis by (simp add: init_free_list_stop)
  next
    case lt: True
    then have "accessible s (element_at s i) 4" using "1.prems" by simp
    then obtain s1 where s1: "store_uint s (element_at s i) (i + 1) = Inr s1"
      using store_uint_Inr_iff by blast
    note f = store_uint_fields [OF s1]
    have el: "element_at s1 = element_at s" by (rule element_at_cong) (simp_all add: f)
    have "accessible s1 (element_at s1 j) 4" if "i + 1 \<le> j" "j < max_entries s1" for j
    proof -
      have "unat i \<le> unat j" using that(1) unat_succ [OF lt] by (simp add: word_le_nat_alt)
      then have "i \<le> j" by (simp add: word_le_nat_alt)
      then show ?thesis
        using "1.prems" [of j] that(2) by (simp add: el f(1) store_uint_accessible [OF s1])
    qed
    then obtain s' where "init_free_list s1 (i + 1) = Inr s'"
      using "1.IH" [OF lt s1] by blast
    then show ?thesis using lt s1 by (subst init_free_list.simps) simp
  qed
qed

lemma unat_mult_nowrap:
  fixes i n es :: uint_t
  assumes "unat n * unat es < 2 ^ 32" "i \<le> n"
  shows "unat (i * es) = unat i * unat es"
proof -
  have "unat i * unat es \<le> unat n * unat es"
    using assms(2) by (simp add: word_le_nat_alt mult_le_mono1)
  then have "unat i * unat es < 2 ^ 32" using assms(1) by linarith
  then show ?thesis by (simp add: unat_word_ariths)
qed

lemma ctor_succeeds:
  assumes ok: "malloc_block_ok (unat (n * es)) MIN_BLOCK_ALIGN
               (malloc_block (unat (n * es)) MIN_BLOCK_ALIGN)"
    and nz: "fst (malloc_block (unat (n * es)) MIN_BLOCK_ALIGN) \<noteq> 0"
    and es: "4 \<le> unat es"
    and nw: "unat n * unat es < 2 ^ 32"
  shows "\<exists>s. MemoryPoolBase_ctor malloc_block es n = Inr s"
proof -
  define mb where "mb = malloc_block (unat (n * es)) MIN_BLOCK_ALIGN"
  let ?s0 = "\<lparr>max_entries = n, entry_size = es, num_free_entries = n, pool_mem = fst mb,
      next_free = fst mb, block = snd mb\<rparr>"
  have len: "length (snd mb) = unat n * unat es" and top: "unat (fst mb) + unat n * unat es < 2 ^ 64"
    using ok nz unat_mult_nowrap [OF nw order_refl]
    by (simp_all add: malloc_block_ok_def mb_def)
  have "accessible ?s0 (element_at ?s0 j) 4" if "j < max_entries ?s0" for j
  proof (rule accessible_element_at)
    show "pool_mem ?s0 \<noteq> 0" using nz by (simp add: mb_def)
    show "unat (pool_mem ?s0) + length (block ?s0) < 2 ^ 64" using len top by simp
    have j: "unat j < unat n" using that by (simp add: word_less_nat_alt)
    then have "j \<le> n" by (simp add: word_le_nat_alt)
    then have "unat (j * es) = unat j * unat es" by (rule unat_mult_nowrap [OF nw])
    moreover have "(unat j + 1) * unat es \<le> unat n * unat es"
      using j by (intro mult_le_mono1) simp
    ultimately show "unat (j * entry_size ?s0) + 4 \<le> length (block ?s0)"
      using es len by (simp add: algebra_simps)
  qed
  then have "\<exists>s'. init_free_list ?s0 0 = Inr s'" by (intro init_free_list_succeeds)
  then show ?thesis by (simp add: MemoryPoolBase_ctor_def mb_def Let_def)
qed

lemma element_at_0: "element_at s 0 = pool_mem s"
  by (simp add: element_at_def)

section \<open>Allocating from a fresh pool\<close>

lemma unat_of_nat_uint: "k < 4294967296 \<Longrightarrow> unat (word_of_nat k :: uint_t) = k"
  by (simp add: unsigned_of_nat take_bit_nat_eq_self)

lemma slot_cong:
  "pool_mem s' = pool_mem s \<Longrightarrow> entry_size s' = entry_size s \<Longrightarrow> slot s' = slot s"
  by (rule ext) (simp add: slot_def element_at_def)

lemma load_uint_cong:
  "pool_mem s' = pool_mem s \<Longrightarrow> block s' = block s \<Longrightarrow> load_uint s' = load_uint s"
  by (rule ext) (simp add: load_uint_def accessible_def)

lemma accessible_cong:
  "pool_mem s' = pool_mem s \<Longrightarrow> length (block s') = length (block s) \<Longrightarrow>
   accessible s' = accessible s"
  by (rule ext, rule ext) (simp add: accessible_def)

lemma accessible_nonnull: "accessible s p len \<Longrightarrow> p \<noteq> 0"
  by (auto simp add: accessible_def unat_eq_zero)

lemma allocate_empty: "num_free_entries s = 0 \<Longrightarrow> allocate s = Inr (0, s)"
  by (simp add: allocate_def)

lemma ctor_fresh:
  assumes ok: "malloc_block_ok (unat (n * es)) MIN_BLOCK_ALIGN
               (malloc_block (unat (n * es)) MIN_BLOCK_ALIGN)"
    and c: "MemoryPoolBase_ctor malloc_block es n = Inr s"
  shows "fresh_after s 0"
proof -
  note f = ctor_unfold [OF c]
  have "next_free s = slot s 0" using f(4,5) by (simp add: slot_def element_at_0)
  moreover have "accessible s (element_at s j) 4 \<and> load_uint s (element_at s j) = Inr (j + 1)"
    if "j < max_entries s" for j
    using that f(7) [of j] ctor_links [OF c ok, of j] by (simp add: f(1))
  ultimately show ?thesis by (simp add: fresh_after_def f(1,3))
qed

lemma fresh_alloc:
  assumes fr: "fresh_after s k" and k: "k < unat (max_entries s)"
  shows "\<exists>s'. allocate s = Inr (slot s k, s') \<and> fresh_after s' (Suc k)
           \<and> max_entries s' = max_entries s \<and> pool_mem s' = pool_mem s
           \<and> entry_size s' = entry_size s \<and> slot s k \<noteq> 0"
proof -
  let ?N = "unat (max_entries s)"
  let ?w = "word_of_nat k :: uint_t"
  have k32: "k < 4294967296" using k unat_lt32 [of "max_entries s"] by simp
  have uw: "unat ?w = k" by (rule unat_of_nat_uint [OF k32])
  have wlt: "?w < max_entries s" using k uw by (simp add: word_less_nat_alt)
  have nf: "unat (num_free_entries s) = ?N - k" and nx: "next_free s = slot s k"
    and li: "\<And>j. j < max_entries s \<Longrightarrow>
          accessible s (element_at s j) 4 \<and> load_uint s (element_at s j) = Inr (j + 1)"
    using fr k by (simp_all add: fresh_after_def)
  have nn: "slot s k \<noteq> 0" using li [OF wlt] accessible_nonnull by (auto simp add: slot_def)
  have w1: "?w + 1 = word_of_nat (Suc k)" by simp
  show ?thesis
  proof (cases "1 < num_free_entries s")
    case True
    then have big: "1 < ?N - k" using nf by (simp add: word_less_nat_alt)
    define s' where "s' = s\<lparr>num_free_entries := num_free_entries s - 1,
                       next_free := element_at s (?w + 1)\<rparr>"
    have "load_uint s (next_free s) = Inr (?w + 1)" using li [OF wlt] nx by (simp add: slot_def)
    then have a: "allocate s = Inr (slot s k, s')"
      using True nx by (simp add: allocate_def s'_def)
    have "num_free_entries s \<noteq> 0" using True by auto
    then have "unat (num_free_entries s') = ?N - Suc k"
      using nf by (simp add: s'_def unat_minus_one)
    moreover have "next_free s' = slot s' (Suc k)"
      by (simp add: s'_def slot_def element_at_def w1)
    moreover have "accessible s' (element_at s' j) 4
        \<and> load_uint s' (element_at s' j) = Inr (j + 1)" if "j < max_entries s'" for j
    proof -
      have "element_at s' = element_at s" by (rule element_at_cong) (simp_all add: s'_def)
      moreover have "load_uint s' = load_uint s" by (rule load_uint_cong) (simp_all add: s'_def)
      moreover have "accessible s' = accessible s"
        by (rule accessible_cong) (simp_all add: s'_def)
      ultimately show ?thesis using li [of j] that by (simp add: s'_def)
    qed
    ultimately have "fresh_after s' (Suc k)" using big by (simp add: fresh_after_def s'_def)
    then show ?thesis using a nn by (auto simp add: s'_def)
  next
    case False
    then have "unat (num_free_entries s) \<le> 1" by (simp add: word_less_nat_alt)
    then have one: "unat (num_free_entries s) = 1" and last: "Suc k = ?N" using nf k by simp_all
    then have nf1: "num_free_entries s = 1" by (simp add: word_unat_eq_iff)
    define s' where "s' = s\<lparr>num_free_entries := 0, next_free := 0\<rparr>"
    have a: "allocate s = Inr (slot s k, s')"
      using nf1 nx by (simp add: allocate_def s'_def)
    have "accessible s' (element_at s' j) 4
        \<and> load_uint s' (element_at s' j) = Inr (j + 1)" if "j < max_entries s'" for j
    proof -
      have "element_at s' = element_at s" by (rule element_at_cong) (simp_all add: s'_def)
      moreover have "load_uint s' = load_uint s" by (rule load_uint_cong) (simp_all add: s'_def)
      moreover have "accessible s' = accessible s"
        by (rule accessible_cong) (simp_all add: s'_def)
      ultimately show ?thesis using li [of j] that by (simp add: s'_def)
    qed
    then have "fresh_after s' (Suc k)" using last by (simp add: fresh_after_def s'_def)
    then show ?thesis using a nn by (auto simp add: s'_def)
  qed
qed

lemma fresh_alloc_n:
  assumes "fresh_after s k" "m = unat (max_entries s) - k"
  shows "\<exists>s'. allocate_n m s = Inr (map (slot s) [k..<unat (max_entries s)], s')
           \<and> num_free_entries s' = 0 \<and> max_entries s' = max_entries s"
  using assms
proof (induction m arbitrary: s k)
  case 0
  then have "unat (num_free_entries s) = 0" "k = unat (max_entries s)"
    by (simp_all add: fresh_after_def)
  then show ?case by (simp add: unat_eq_zero)
next
  case (Suc m)
  then have k: "k < unat (max_entries s)" by simp
  from fresh_alloc [OF Suc.prems(1) k] obtain s1 where a: "allocate s = Inr (slot s k, s1)"
    and fr: "fresh_after s1 (Suc k)" and f: "max_entries s1 = max_entries s"
      "pool_mem s1 = pool_mem s" "entry_size s1 = entry_size s" by blast
  have "m = unat (max_entries s1) - Suc k" using Suc.prems(2) f by simp
  from Suc.IH [OF fr this] obtain s' where
    r: "allocate_n m s1 = Inr (map (slot s1) [Suc k..<unat (max_entries s1)], s')"
    and z: "num_free_entries s' = 0" "max_entries s' = max_entries s1" by blast
  have "slot s1 = slot s" by (rule slot_cong) (simp_all add: f)
  then show ?case using a r z f k by (simp add: upt_conv_Cons)
qed

lemma allocate_n_empty:
  "num_free_entries s = 0 \<Longrightarrow> allocate_n k s = Inr (replicate k 0, s)"
  by (induction k) (simp_all add: allocate_empty)

section \<open>The invariant of the pool\<close>

lemma sint_small:
  fixes w :: addr
  assumes "unat w < 2 ^ 32"
  shows "sint w = int (unat w)"
proof -
  have "uint w < 2 ^ 63"
  proof -
    have "int (unat w) < 2 ^ 32" using assms by (metis of_nat_less_iff of_nat_numeral of_nat_power)
    then show ?thesis by simp
  qed
  moreover have "- (2 ^ 63) \<le> uint w"
    by (rule order_trans [of _ 0]) simp_all
  ultimately have "signed_take_bit 63 (uint w) = uint w"
    by (intro signed_take_bit_int_eq_self) simp_all
  then show ?thesis by (simp add: sint_uint)
qed

lemma sdiv_nonneg:
  fixes a b :: nat
  shows "int a sdiv int b = int (a div b)"
  by (cases "a = 0"; cases "b = 0") (simp_all add: signed_divide_int_def zdiv_int)

lemma layout_slot:
  assumes lo: "layout_ok s" and i: "i < unat (max_entries s)"
  shows "unat (slot s i) = unat (pool_mem s) + i * unat (entry_size s)"
    and "accessible s (slot s i) 4"
    and "slot s i \<noteq> 0"
    and "slot s i - pool_mem s = ucast (word_of_nat i * entry_size s)"
    and "unat (word_of_nat i * entry_size s) = i * unat (entry_size s)"
    and "(i + 1) * unat (entry_size s) \<le> unat (max_entries s) * unat (entry_size s)"
proof -
  let ?N = "unat (max_entries s)" and ?e = "unat (entry_size s)" and ?P = "unat (pool_mem s)"
  let ?w = "word_of_nat i :: uint_t"
  have mz: "max_entries s \<noteq> 0" using i by auto
  have nw: "?N * ?e < 2 ^ 32" and len: "length (block s) = ?N * ?e"
    and top: "?P + ?N * ?e < 2 ^ 64" and nz: "pool_mem s \<noteq> 0" and e4: "4 \<le> ?e"
    using lo mz by (simp_all add: layout_ok_def)
  have "i < 4294967296" using i unat_lt32 [of "max_entries s"] by simp
  then have uw: "unat ?w = i" by (rule unat_of_nat_uint)
  then have "?w \<le> max_entries s" using i by (simp add: word_le_nat_alt)
  then show off: "unat (?w * entry_size s) = i * ?e"
    using unat_mult_nowrap [OF nw] uw by simp
  show le: "(i + 1) * ?e \<le> ?N * ?e" using i by (intro mult_le_mono1) simp
  then have fit: "unat (?w * entry_size s) + 4 \<le> length (block s)"
    using off e4 len by (simp add: algebra_simps)
  show acc: "accessible s (slot s i) 4"
    unfolding slot_def using nz top fit len by (intro accessible_element_at) simp_all
  then show "slot s i \<noteq> 0" by (rule accessible_nonnull)
  show "unat (slot s i) = ?P + i * ?e"
    using element_at_accessible(1) [of s ?w] acc top len off by (simp add: slot_def)
  show "slot s i - pool_mem s = ucast (?w * entry_size s)"
    by (simp add: slot_def element_at_def)
qed

lemma layout_slot_apart:
  assumes "layout_ok s" "i < unat (max_entries s)" "j < unat (max_entries s)" "i \<noteq> j"
  shows "unat (slot s i) + 4 \<le> unat (slot s j) \<or> unat (slot s j) + 4 \<le> unat (slot s i)"
proof -
  let ?e = "unat (entry_size s)"
  have e4: "4 \<le> ?e" using assms(1,2) by (auto simp add: layout_ok_def)
  consider "i < j" | "j < i" using assms(4) by linarith
  then have "i * ?e + 4 \<le> j * ?e \<or> j * ?e + 4 \<le> i * ?e"
  proof cases
    case 1
    then have "(i + 1) * ?e \<le> j * ?e" by (intro mult_le_mono1) simp
    then show ?thesis using e4 by (simp add: algebra_simps)
  next
    case 2
    then have "(j + 1) * ?e \<le> i * ?e" by (intro mult_le_mono1) simp
    then show ?thesis using e4 by (simp add: algebra_simps)
  qed
  then show ?thesis
    unfolding layout_slot(1) [OF assms(1,2)] layout_slot(1) [OF assms(1,3)] by linarith
qed

lemma layout_slot_inj:
  assumes "layout_ok s" "i < unat (max_entries s)" "j < unat (max_entries s)"
    "slot s i = slot s j"
  shows "i = j"
  using layout_slot_apart [OF assms(1-3)] assms(4) by fastforce

lemma index_of_slot:
  assumes lo: "layout_ok s" and i: "i < unat (max_entries s)"
  shows "index_of s (slot s i) = Inr (word_of_nat i)"
proof -
  let ?e = "unat (entry_size s)"
  have e4: "4 \<le> ?e" using lo i by (auto simp add: layout_ok_def)
  then have ez: "entry_size s \<noteq> 0" by (auto simp add: unat_eq_zero)
  have d: "unat (slot s i - pool_mem s) = i * ?e"
    using layout_slot(4,5) [OF lo i] by (simp add: unat_ucast_uint)
  then have "unat (slot s i - pool_mem s) < 2 ^ 32"
    using layout_slot(5) [OF lo i] unat_lt32 [of "word_of_nat i * entry_size s"] by simp
  then have "sint (slot s i - pool_mem s) = int (i * ?e)" using d by (simp add: sint_small)
  then have "sint (slot s i - pool_mem s) sdiv uint (entry_size s) = int i"
    using e4 sdiv_nonneg [of "i * ?e" ?e] by simp
  then show ?thesis using ez by (simp add: index_of_def)
qed

lemma dealloc_assert:
  assumes lo: "layout_ok s" and i: "i < unat (max_entries s)"
  shows "pool_mem s \<le> slot s i \<and> slot s i < pool_mem s + ucast (entry_size s * max_entries s)"
proof -
  let ?N = "unat (max_entries s)" and ?e = "unat (entry_size s)" and ?P = "unat (pool_mem s)"
  have nw: "?N * ?e < 2 ^ 32" and top: "?P + ?N * ?e < 2 ^ 64" and e4: "4 \<le> ?e"
    using lo i by (auto simp add: layout_ok_def)
  have "unat (max_entries s * entry_size s) = ?N * ?e"
    by (rule unat_mult_nowrap [OF nw order_refl])
  then have "unat (ucast (entry_size s * max_entries s) :: addr) = ?N * ?e"
    by (simp add: unat_ucast_uint mult.commute)
  then have "unat (pool_mem s + ucast (entry_size s * max_entries s)) = ?P + ?N * ?e"
    using top by (simp add: unat_plus_if')
  moreover have "i * ?e < ?N * ?e" using i e4 by simp
  ultimately show ?thesis
    using layout_slot(1) [OF lo i] by (simp add: word_le_nat_alt word_less_nat_alt)
qed

lemma chain_cong:
  "load_uint s' = load_uint s \<Longrightarrow> slot s' = slot s \<Longrightarrow> chain s' fl = chain s fl"
  by (induction s fl rule: chain.induct) simp_all

lemma chain_tail: "chain s (i # r) \<Longrightarrow> chain s r"
  by (cases r) simp_all

lemma chain_store:
  assumes st: "store_uint s (slot s i) v = Inr s'"
    and lo: "layout_ok s" and i: "i < unat (max_entries s)"
    and fl: "set fl \<subseteq> {..<unat (max_entries s)}" "i \<notin> set fl" "chain s fl"
  shows "chain s' fl"
proof -
  note f = store_uint_fields [OF st]
  have sl: "slot s' = slot s" by (rule slot_cong) (simp_all add: f)
  have ld: "load_uint s' (slot s j) = load_uint s (slot s j)"
    if "j < unat (max_entries s)" "j \<noteq> i" for j
    using layout_slot_apart [OF lo that(1) i that(2)] by (intro load_store_other [OF st]) blast
  show ?thesis using fl
  proof (induction fl)
    case Nil
    then show ?case by simp
  next
    case (Cons a r)
    show ?case
    proof (cases r)
      case Nil
      then show ?thesis by simp
    next
      case (Cons b r')
      have "chain s' r" using Cons.IH Cons.prems chain_tail by auto
      moreover have "load_uint s' (slot s a) = load_uint s (slot s a)"
        using Cons.prems by (intro ld) auto
      ultimately show ?thesis using Cons.prems Cons by (simp add: sl)
    qed
  qed
qed

lemma chain_upt:
  assumes "\<And>j. j < n \<Longrightarrow> load_uint s (slot s j) = Inr (word_of_nat (Suc j))"
  shows "chain s [k..<n]"
proof (induction "n - k" arbitrary: k)
  case 0
  then show ?case by simp
next
  case (Suc m)
  then have k: "k < n" by simp
  have IH: "chain s [Suc k..<n]" using Suc by simp
  show ?case
  proof (cases "Suc k < n")
    case True
    then have "[k..<n] = k # Suc k # [Suc (Suc k)..<n]" using k by (simp add: upt_conv_Cons)
    moreover have "[Suc k..<n] = Suc k # [Suc (Suc k)..<n]" using True by (simp add: upt_conv_Cons)
    ultimately show ?thesis using IH assms [OF k] by simp
  next
    case False
    then have "[k..<n] = [k]" using k by (simp add: upt_conv_Cons)
    then show ?thesis by simp
  qed
qed

lemma ctor_layout_ok:
  assumes ok: "malloc_block_ok (unat (n * es)) MIN_BLOCK_ALIGN
               (malloc_block (unat (n * es)) MIN_BLOCK_ALIGN)"
    and nw: "unat n * unat es < 2 ^ 32"
    and c: "MemoryPoolBase_ctor malloc_block es n = Inr s"
  shows "layout_ok s"
proof -
  note f = ctor_unfold [OF c]
  have sz: "unat (n * es) = unat n * unat es" by (rule unat_mult_nowrap [OF nw order_refl])
  show ?thesis
  proof (cases "n = 0")
    case True
    then have "length (block s) = 0"
      using ok f(6) by (simp add: malloc_block_ok_def split: if_splits)
    then show ?thesis using True unat_lt64 [of "pool_mem s"] by (simp add: layout_ok_def f(1))
  next
    case False
    note b = ctor_block [OF c ok False]
    have "n - 1 < n" using False by (simp add: word_less_nat_alt unat_minus_one unat_gt_0)
    then have "accessible s (element_at s (n - 1)) 4" by (rule f(7))
    then have "unat ((n - 1) * es) + 4 \<le> length (block s)"
      using b(3) by (simp add: element_at_accessible(2) f(2) [symmetric])
    moreover have "unat ((n - 1) * es) = unat (n - 1) * unat es"
      by (rule unat_mult_nowrap [OF nw]) (simp add: word_le_nat_alt unat_minus_one False)
    moreover have "unat (n - 1) = unat n - 1" using False by (simp add: unat_minus_one)
    moreover have "0 < unat n" using False by (simp add: unat_gt_0)
    ultimately have "(unat n - 1) * unat es + 4 \<le> unat n * unat es" using b(2) sz by simp
    moreover have "unat n * unat es = (unat n - 1) * unat es + unat es"
      using \<open>0 < unat n\<close> by (metis Suc_diff_1 add.commute mult_Suc)
    ultimately have "4 \<le> unat es" by linarith
    then show ?thesis using b sz False nw by (simp add: layout_ok_def f(1,2))
  qed
qed

lemma ctor_pool_inv:
  assumes ok: "malloc_block_ok (unat (n * es)) MIN_BLOCK_ALIGN
               (malloc_block (unat (n * es)) MIN_BLOCK_ALIGN)"
    and nw: "unat n * unat es < 2 ^ 32"
    and c: "MemoryPoolBase_ctor malloc_block es n = Inr s"
  shows "pool_inv s {} [0..<unat n]"
proof -
  note f = ctor_unfold [OF c]
  have lo: "layout_ok s" using assms by (rule ctor_layout_ok)
  have "load_uint s (slot s j) = Inr (word_of_nat (Suc j))" if "j < unat n" for j
  proof -
    have "j < 4294967296" using that unat_lt32 [of n] by simp
    then have "word_of_nat j < n" using that by (simp add: word_less_nat_alt unat_of_nat_uint)
    then show ?thesis using ctor_links [OF c ok] by (simp add: slot_def)
  qed
  then have ch: "chain s [0..<unat n]" by (rule chain_upt)
  have nf: "num_free_entries s = word_of_nat (length [0..<unat n])" by (simp add: f(3))
  have hd: "next_free s = slot s (hd [0..<unat n])" if "[0..<unat n] \<noteq> []"
  proof -
    have "hd [0..<unat n] = 0" using that by (simp add: upt_conv_Cons)
    then show ?thesis using f(4,5) by (simp add: slot_def element_at_0)
  qed
  have e: "max_entries s \<noteq> 0 \<Longrightarrow> [0..<unat n] \<noteq> []" by (simp add: f(1) unat_gt_0)
  show ?thesis
    unfolding pool_inv_def using lo ch nf hd e by (auto simp add: f(1))
qed

lemma layout_ok_cong:
  "max_entries s' = max_entries s \<Longrightarrow> entry_size s' = entry_size s \<Longrightarrow>
   pool_mem s' = pool_mem s \<Longrightarrow> length (block s') = length (block s) \<Longrightarrow>
   layout_ok s' = layout_ok s"
  by (simp add: layout_ok_def)

lemma inv_length:
  assumes "pool_inv s live fl"
  shows "length fl \<le> unat (max_entries s)" "unat (num_free_entries s) = length fl"
    "(fl = []) = (num_free_entries s = 0)"
proof -
  have d: "distinct fl" and sub: "set fl \<subseteq> {..<unat (max_entries s)}"
    and nf: "num_free_entries s = word_of_nat (length fl)"
    using assms by (simp_all add: pool_inv_def)
  have "card (set fl) \<le> card {..<unat (max_entries s)}" using sub by (intro card_mono) simp_all
  then show le: "length fl \<le> unat (max_entries s)" using d by (simp add: distinct_card)
  then have "length fl < 4294967296" using unat_lt32 [of "max_entries s"] by simp
  then show u: "unat (num_free_entries s) = length fl" by (simp add: nf unat_of_nat_uint)
  show "(fl = []) = (num_free_entries s = 0)" using u by (simp add: unat_eq_zero [symmetric])
qed

lemma inv_head:
  assumes "pool_inv s live fl" "max_entries s \<noteq> 0"
  shows "(fl = []) = (next_free s = 0)"
proof (cases fl)
  case Nil
  then show ?thesis using assms by (simp add: pool_inv_def)
next
  case (Cons i r)
  then have "i < unat (max_entries s)" "layout_ok s" "next_free s = slot s i"
    using assms by (simp_all add: pool_inv_def)
  then show ?thesis using Cons layout_slot(3) by simp
qed

lemma inv_live_fresh:
  assumes inv: "pool_inv s live fl" and i: "i \<in> set fl"
  shows "slot s i \<notin> live"
proof
  assume "slot s i \<in> live"
  then obtain k where k: "k < unat (max_entries s)" "k \<notin> set fl" "slot s i = slot s k"
    using inv by (auto simp add: pool_inv_def)
  have "i < unat (max_entries s)" "layout_ok s" using inv i by (auto simp add: pool_inv_def)
  then have "i = k" using k by (intro layout_slot_inj [of s i k])
  then show False using i k by simp
qed

lemma alloc_step_empty:
  assumes "pool_inv s live []"
  shows "allocate s = Inr (0, s)"
  using inv_length(3) [OF assms] by (simp add: allocate_empty)

lemma alloc_step:
  assumes inv: "pool_inv s live (i # r)"
  shows "\<exists>s'. allocate s = Inr (slot s i, s') \<and> pool_inv s' (insert (slot s i) live) r
           \<and> slot s i \<noteq> 0 \<and> slot s i \<notin> live
           \<and> max_entries s' = max_entries s \<and> entry_size s' = entry_size s
           \<and> pool_mem s' = pool_mem s \<and> block s' = block s
           \<and> num_free_entries s' = num_free_entries s - 1"
proof -
  let ?N = "unat (max_entries s)"
  have lo: "layout_ok s" and i: "i < ?N" and ir: "i \<notin> set r" and dr: "distinct r"
    and sub: "set r \<subseteq> {..<?N}" and nf: "num_free_entries s = word_of_nat (Suc (length r))"
    and ch: "chain s (i # r)" and nx: "next_free s = slot s i"
    and lv: "live = slot s ` ({..<?N} - set (i # r))"
    using inv by (simp_all add: pool_inv_def)
  have mz: "max_entries s \<noteq> 0" using i by auto
  have nn: "slot s i \<noteq> 0" by (rule layout_slot(3) [OF lo i])
  have fresh: "slot s i \<notin> live" by (rule inv_live_fresh [OF inv]) simp
  have live': "insert (slot s i) live = slot s ` ({..<?N} - set r)"
    using lv i ir by auto
  have u: "unat (num_free_entries s) = Suc (length r)" using inv_length(2) [OF inv] by simp
  define s' where "s' = (if r = [] then s\<lparr>num_free_entries := 0, next_free := 0\<rparr>
     else s\<lparr>num_free_entries := num_free_entries s - 1, next_free := slot s (hd r)\<rparr>)"
  have f: "max_entries s' = max_entries s" "entry_size s' = entry_size s"
    "pool_mem s' = pool_mem s" "block s' = block s"
    by (simp_all add: s'_def)
  have nf': "num_free_entries s' = num_free_entries s - 1" by (simp add: s'_def nf)
  have a: "allocate s = Inr (slot s i, s')"
  proof (cases r)
    case Nil
    then have "num_free_entries s = 1" using nf by simp
    then show ?thesis using Nil nx by (simp add: allocate_def s'_def)
  next
    case (Cons j r')
    then have "1 < num_free_entries s" using u by (simp add: word_less_nat_alt)
    moreover have "load_uint s (next_free s) = Inr (word_of_nat j)" using ch Cons nx by simp
    ultimately show ?thesis using Cons nx by (simp add: allocate_def s'_def slot_def)
  qed
  have sl: "slot s' = slot s" by (rule slot_cong) (simp_all add: f)
  have ld: "load_uint s' = load_uint s" by (rule load_uint_cong) (simp_all add: f)
  have "layout_ok s'" using lo by (simp add: layout_ok_cong [of s' s] f)
  moreover have "chain s' r" using chain_tail [OF ch] by (simp add: chain_cong [OF ld sl])
  moreover have "num_free_entries s' = word_of_nat (length r)" by (simp add: nf' nf)
  moreover have "r \<noteq> [] \<longrightarrow> next_free s' = slot s' (hd r)"
    unfolding sl by (simp add: s'_def)
  moreover have "r = [] \<longrightarrow> next_free s' = 0" by (simp add: s'_def)
  ultimately have "pool_inv s' (insert (slot s i) live) r"
    unfolding pool_inv_def using dr sub live' by (simp add: f sl)
  then show ?thesis using a nn fresh f nf' by blast
qed

lemma dealloc_step:
  assumes inv: "pool_inv s live fl" and i: "i < unat (max_entries s)" and ifl: "i \<notin> set fl"
  shows "\<exists>s'. deallocate s (slot s i) = Inr s' \<and> pool_inv s' (live - {slot s i}) (i # fl)
           \<and> next_free s' = slot s i \<and> num_free_entries s' = num_free_entries s + 1
           \<and> load_uint s' (slot s i)
               = Inr (if next_free s = 0 then max_entries s else word_of_nat (hd fl))
           \<and> (next_free s \<noteq> 0 \<longrightarrow> next_free s = slot s (hd fl) \<and> hd fl < unat (max_entries s))
           \<and> max_entries s' = max_entries s \<and> entry_size s' = entry_size s
           \<and> pool_mem s' = pool_mem s
           \<and> block s' = write_bytes (block s) (unat (slot s i) - unat (pool_mem s))
                 (uint_bytes (if next_free s = 0 then max_entries s else word_of_nat (hd fl)))"
proof -
  let ?N = "unat (max_entries s)"
  let ?p = "slot s i"
  have lo: "layout_ok s" and d: "distinct fl"
    and sub: "set fl \<subseteq> {..<?N}" and nf: "num_free_entries s = word_of_nat (length fl)"
    and ch: "chain s fl" and nx: "fl \<noteq> [] \<longrightarrow> next_free s = slot s (hd fl)"
    and lv: "live = slot s ` ({..<?N} - set fl)"
    using inv by (simp_all add: pool_inv_def)
  have mz: "max_entries s \<noteq> 0" using i by auto
  note hd0 = inv_head [OF inv mz]
  define v where "v = (if next_free s = 0 then max_entries s else word_of_nat (hd fl))"
  have hdlt: "hd fl < ?N" if "next_free s \<noteq> 0"
    using that hd0 sub by (cases fl) auto
  have idx: "(if next_free s \<noteq> 0 then index_of s (next_free s) else Inr (max_entries s)) = Inr v"
  proof (cases "next_free s = 0")
    case True
    then show ?thesis by (simp add: v_def)
  next
    case False
    then have "next_free s = slot s (hd fl)" using hd0 nx by simp
    then show ?thesis using False index_of_slot [OF lo hdlt] by (simp add: v_def)
  qed
  have "accessible s ?p 4" by (rule layout_slot(2) [OF lo i])
  then obtain s1 where st: "store_uint s ?p v = Inr s1" using store_uint_Inr_iff by blast
  note f1 = store_uint_fields [OF st]
  define s' where "s' = s1\<lparr>next_free := ?p, num_free_entries := num_free_entries s1 + 1\<rparr>"
  have f: "max_entries s' = max_entries s" "entry_size s' = entry_size s"
    "pool_mem s' = pool_mem s" "length (block s') = length (block s)" "block s' = block s1"
    by (simp_all add: s'_def f1)
  have de: "deallocate s ?p = Inr s'"
    using dealloc_assert [OF lo i] idx st by (simp add: deallocate_def s'_def)
  have sl: "slot s' = slot s" by (rule slot_cong) (simp_all add: f)
  have sl1: "slot s1 = slot s" by (rule slot_cong) (simp_all add: f1)
  have ld: "load_uint s' = load_uint s1" by (rule load_uint_cong) (simp_all add: f f1)
  have lp: "load_uint s' ?p = Inr v" using load_store_same [OF st] by (simp add: ld)
  have "chain s1 fl" by (rule chain_store [OF st lo i sub ifl ch])
  then have ch': "chain s' fl" by (simp add: chain_cong [OF ld] sl sl1)
  have "chain s' (i # fl)"
  proof (cases fl)
    case Nil
    then show ?thesis by simp
  next
    case (Cons j r)
    then have "next_free s \<noteq> 0" using hd0 by simp
    then have "v = word_of_nat j" using Cons by (simp add: v_def)
    then show ?thesis using Cons lp ch' by (simp add: sl)
  qed
  moreover have "layout_ok s'" using lo layout_ok_cong [OF f(1-4)] by simp
  moreover have "num_free_entries s' = word_of_nat (length (i # fl))"
    by (simp add: s'_def f1 nf)
  moreover have "live - {?p} = slot s ` ({..<?N} - set (i # fl))"
  proof -
    have "slot s k \<noteq> ?p" if "k < ?N" "k \<noteq> i" for k
      using layout_slot_inj [OF lo that(1) i] that(2) by blast
    then show ?thesis using lv by auto
  qed
  moreover have "next_free s' = ?p" by (simp add: s'_def)
  ultimately have "pool_inv s' (live - {?p}) (i # fl)"
    unfolding pool_inv_def using d sub i ifl by (simp add: f sl)
  moreover have "num_free_entries s' = num_free_entries s + 1" by (simp add: s'_def f1)
  moreover have "next_free s \<noteq> 0 \<longrightarrow> next_free s = slot s (hd fl) \<and> hd fl < ?N"
    using hd0 nx hdlt by simp
  moreover have "block s' = write_bytes (block s) (unat ?p - unat (pool_mem s)) (uint_bytes v)"
    using st by (auto simp add: s'_def store_uint_def split: if_splits)
  moreover have "next_free s' = ?p" by (simp add: s'_def)
  ultimately show ?thesis using de lp f(1-3) unfolding v_def by blast
qed

lemma read_bytes_update_other:
  assumes "k < off \<or> off + len \<le> k"
  shows "read_bytes (xs[k := b]) off len = read_bytes xs off len"
proof (cases "k < off")
  case True
  then show ?thesis by (simp add: read_bytes_def drop_update_cancel)
next
  case False
  then have "len \<le> k - off" using assms by linarith
  then show ?thesis using False
    by (simp add: read_bytes_def drop_update_swap take_update_cancel)
qed

lemma chain_load_eq:
  assumes "slot s' = slot s"
    and "\<And>j. j \<in> set fl \<Longrightarrow> load_uint s' (slot s j) = load_uint s (slot s j)"
    and "chain s fl"
  shows "chain s' fl"
  using assms(2,3)
proof (induction fl)
  case Nil
  then show ?case by simp
next
  case (Cons a r)
  show ?case
  proof (cases r)
    case Nil
    then show ?thesis by simp
  next
    case (Cons b r')
    have "chain s' r" using Cons.IH Cons.prems chain_tail by auto
    then show ?thesis using Cons.prems Cons by (simp add: assms(1))
  qed
qed

lemma caller_write_inv:
  assumes inv: "pool_inv s live fl" and p: "p \<in> live" and off: "off < unat (entry_size s)"
  shows "pool_inv (caller_write s p off b) live fl"
proof -
  let ?N = "unat (max_entries s)" and ?e = "unat (entry_size s)" and ?P = "unat (pool_mem s)"
  let ?s' = "caller_write s p off b"
  have lo: "layout_ok s" and sub: "set fl \<subseteq> {..<?N}" and ch: "chain s fl"
    using inv by (simp_all add: pool_inv_def)
  obtain i where i: "i < ?N" "i \<notin> set fl" "p = slot s i"
    using inv p by (auto simp add: pool_inv_def)
  have f: "max_entries ?s' = max_entries s" "entry_size ?s' = entry_size s"
    "pool_mem ?s' = pool_mem s" "length (block ?s') = length (block s)"
    "num_free_entries ?s' = num_free_entries s" "next_free ?s' = next_free s"
    by (simp_all add: caller_write_def)
  have sl: "slot ?s' = slot s" by (rule slot_cong) (simp_all add: f)
  have k: "unat p - ?P + off = i * ?e + off" using layout_slot(1) [OF lo i(1)] i(3) by simp
  have ld: "load_uint ?s' (slot s j) = load_uint s (slot s j)" if "j \<in> set fl" for j
  proof -
    have j: "j < ?N" "j \<noteq> i" using that sub i(2) by auto
    have o: "unat (slot s j) - ?P = j * ?e" using layout_slot(1) [OF lo j(1)] by simp
    consider "i < j" | "j < i" using j(2) by linarith
    then have "i * ?e + off < j * ?e \<or> j * ?e + 4 \<le> i * ?e + off"
    proof cases
      case 1
      then have "(i + 1) * ?e \<le> j * ?e" by (intro mult_le_mono1) simp
      then show ?thesis using off by (simp add: algebra_simps)
    next
      case 2
      then have "(j + 1) * ?e \<le> i * ?e" by (intro mult_le_mono1) simp
      moreover have "4 \<le> ?e" using lo i(1) by (auto simp add: layout_ok_def)
      ultimately show ?thesis by (simp add: algebra_simps)
    qed
    then have "read_bytes (block ?s') (unat (slot s j) - ?P) 4
        = read_bytes (block s) (unat (slot s j) - ?P) 4"
      unfolding o by (simp add: caller_write_def k read_bytes_update_other)
    moreover have "accessible ?s' = accessible s" by (rule accessible_cong) (simp_all add: f)
    ultimately show ?thesis by (simp add: load_uint_def f)
  qed
  have "chain ?s' fl" using sl ld ch by (rule chain_load_eq)
  moreover have "layout_ok ?s'" using lo layout_ok_cong [OF f(1-4)] by simp
  ultimately show ?thesis using inv unfolding pool_inv_def by (simp add: f sl)
qed

lemma allocate_fields:
  assumes "allocate s = Inr (p, s')"
  shows "max_entries s' = max_entries s" "entry_size s' = entry_size s"
    "pool_mem s' = pool_mem s" "block s' = block s"
  using assms by (auto simp add: allocate_def split: if_splits sum.splits)

lemma allocate_count:
  assumes "allocate s = Inr (p, s')"
  shows "if num_free_entries s = 0 then p = 0 \<and> s' = s
         else p = next_free s \<and> unat (num_free_entries s') = unat (num_free_entries s) - 1"
proof (cases "num_free_entries s = 0")
  case True
  then show ?thesis using assms by (simp add: allocate_def)
next
  case False
  then have "unat (num_free_entries s) \<noteq> 0" by (simp add: unat_eq_zero)
  then have "1 < num_free_entries s \<or> num_free_entries s = 1"
    by (auto simp add: word_less_nat_alt word_unat_eq_iff)
  then show ?thesis using assms False
    by (auto simp add: allocate_def unat_minus_one split: if_splits sum.splits)
qed

lemma deallocate_fields:
  assumes "deallocate s p = Inr s'"
  shows "max_entries s' = max_entries s" "entry_size s' = entry_size s"
    "pool_mem s' = pool_mem s" "num_free_entries s' = num_free_entries s + 1"
    "next_free s' = p"
  using assms
  by (auto simp add: deallocate_def store_uint_def split: if_splits sum.splits)

lemma caller_write_fields:
  "max_entries (caller_write s p off b) = max_entries s"
  "entry_size (caller_write s p off b) = entry_size s"
  "pool_mem (caller_write s p off b) = pool_mem s"
  "num_free_entries (caller_write s p off b) = num_free_entries s"
  "next_free (caller_write s p off b) = next_free s"
  "length (block (caller_write s p off b)) = length (block s)"
  by (simp_all add: caller_write_def)

lemma reachable_count:
  assumes "reachable s live"
  shows "finite live \<and> unat (num_free_entries s) + card live \<le> unat (max_entries s)"
  using assms
proof (induction rule: reachable.induct)
  case (construct n es malloc_block s)
  then show ?case using ctor_unfold(1,3) [of malloc_block es n s] by simp
next
  case (allocate s live p s')
  note c = allocate_count [OF allocate.hyps(2)] and f = allocate_fields [OF allocate.hyps(2)]
  show ?case
  proof (cases "num_free_entries s = 0")
    case True
    then show ?thesis using c allocate.IH by simp
  next
    case False
    then have pos: "0 < unat (num_free_entries s)" by (simp add: unat_gt_0)
    have u: "unat (num_free_entries s') = unat (num_free_entries s) - 1" using c False by simp
    have "card (insert p live) \<le> card live + 1" using allocate.IH by (simp add: card_insert_if)
    then show ?thesis using allocate.IH u pos f by (auto simp add: card_insert_if)
  qed
next
  case (deallocate s live p s')
  note f = deallocate_fields [OF deallocate.hyps(3)]
  have c: "0 < card live" using deallocate.IH deallocate.hyps(2) by (auto simp add: card_gt_0_iff)
  have "unat (num_free_entries s) + 1 \<le> unat (max_entries s)" using deallocate.IH c by linarith
  then have "unat (num_free_entries s) + 1 < 2 ^ 32" using unat_lt32 [of "max_entries s"] by simp
  then have "unat (num_free_entries s') = unat (num_free_entries s) + 1"
    by (simp add: f unat_word_ariths)
  moreover have "card (live - {p}) = card live - 1"
    using deallocate.IH deallocate.hyps(2) by simp
  ultimately show ?case using deallocate.IH c f by simp
next
  case (store s live p off b)
  then show ?case by (simp add: caller_write_fields)
qed

lemma reachable_inv:
  assumes "reachable s live" and "unat (max_entries s) * unat (entry_size s) < 2 ^ 32"
  shows "\<exists>fl. pool_inv s live fl"
  using assms
proof (induction rule: reachable.induct)
  case (construct n es malloc_block s)
  have "unat n * unat es < 2 ^ 32"
    using construct.prems ctor_unfold(1,2) [OF construct.hyps(2)] by simp
  then show ?case using ctor_pool_inv construct.hyps by blast
next
  case (allocate s live p s')
  have "unat (max_entries s) * unat (entry_size s) < 2 ^ 32"
    using allocate.prems allocate_fields(1,2) [OF allocate.hyps(2)] by simp
  then obtain fl where inv: "pool_inv s live fl" using allocate.IH by blast
  show ?case
  proof (cases fl)
    case Nil
    then have "allocate s = Inr (0, s)" using inv alloc_step_empty by blast
    then show ?thesis using allocate.hyps(2) inv by auto
  next
    case (Cons i r)
    from alloc_step [OF inv [unfolded Cons]] obtain s1 where
      "allocate s = Inr (slot s i, s1)" "pool_inv s1 (insert (slot s i) live) r" "slot s i \<noteq> 0"
      by blast
    then show ?thesis using allocate.hyps(2) by auto
  qed
next
  case (deallocate s live p s')
  have "unat (max_entries s) * unat (entry_size s) < 2 ^ 32"
    using deallocate.prems deallocate_fields(1,2) [OF deallocate.hyps(3)] by simp
  then obtain fl where inv: "pool_inv s live fl" using deallocate.IH by blast
  then obtain i where i: "i < unat (max_entries s)" "i \<notin> set fl" "p = slot s i"
    using deallocate.hyps(2) by (auto simp add: pool_inv_def)
  from dealloc_step [OF inv i(1,2)] obtain s1 where
    "deallocate s (slot s i) = Inr s1" "pool_inv s1 (live - {slot s i}) (i # fl)" by blast
  then show ?case using deallocate.hyps(3) i(3) by auto
next
  case (store s live p off b)
  have "unat (max_entries s) * unat (entry_size s) < 2 ^ 32"
    using store.prems by (simp add: caller_write_fields)
  then obtain fl where inv: "pool_inv s live fl" using store.IH by blast
  show ?case using caller_write_inv [OF inv store.hyps(2,3)] by blast
qed

lemma caller_writes_inv:
  assumes "pool_inv s live fl"
    and "\<forall>w \<in> set ws. fst w \<in> live \<and> fst (snd w) < unat (entry_size s)"
  shows "pool_inv (caller_writes s ws) live fl
       \<and> max_entries (caller_writes s ws) = max_entries s
       \<and> entry_size (caller_writes s ws) = entry_size s
       \<and> pool_mem (caller_writes s ws) = pool_mem s"
  using assms
proof (induction s ws rule: caller_writes.induct)
  case (1 s)
  then show ?case by simp
next
  case (2 s ptr off b ws)
  have "pool_inv (caller_write s ptr off b) live fl"
    using "2.prems" by (intro caller_write_inv) simp_all
  then show ?case using "2.IH" "2.prems"(2) by (simp add: caller_write_fields)
qed

lemma caller_writes_reachable:
  assumes "reachable s live"
    and "\<forall>w \<in> set ws. fst w \<in> live \<and> fst (snd w) < unat (entry_size s)"
  shows "reachable (caller_writes s ws) live"
  using assms
proof (induction s ws rule: caller_writes.induct)
  case (1 s)
  then show ?case by simp
next
  case (2 s ptr off b ws)
  have "reachable (caller_write s ptr off b) live"
    using "2.prems" by (intro reachable.store) simp_all
  then show ?case using "2.IH" "2.prems"(2) by (simp add: caller_write_fields)
qed

lemma run_reachable:
  assumes "reachable s (set held)" and "run cs s held = Inr (ps, s', held')"
  shows "reachable s' (set held')"
  using assms
proof (induction cs s held arbitrary: ps rule: run.induct)
  case (1 s held)
  then show ?case by simp
next
  case (2 cs s held)
  from "2.prems"(2) obtain p s1 where a: "allocate s = Inr (p, s1)"
    by (auto split: sum.splits)
  then obtain ps1 where r: "run cs s1 (if p = 0 then held else List.insert p held)
      = Inr (ps1, s', held')"
    using "2.prems"(2) by (auto split: sum.splits)
  have "reachable s1 (set (if p = 0 then held else List.insert p held))"
    using reachable.allocate [OF "2.prems"(1) a] by (cases "p = 0") simp_all
  then show ?case using "2.IH" [OF a refl _ r] by simp
next
  case (3 p cs s held)
  from "3.prems"(2) have h: "p \<in> set held" by (auto split: if_splits)
  then obtain s1 where d: "deallocate s p = Inr s1" and r: "run cs s1 (removeAll p held)
      = Inr (ps, s', held')"
    using "3.prems"(2) by (auto split: sum.splits)
  have "reachable s1 (set (removeAll p held))"
    using reachable.deallocate [OF "3.prems"(1) h d] by simp
  then show ?case using "3.IH" [OF _ d _ r] h by simp
qed

lemma is_aligned_64: "is_aligned p MIN_BLOCK_ALIGN = (unat p mod 64 = 0)"
proof -
  have "p AND 63 = p AND mask 6" by (simp add: mask_eq_exp_minus_1)
  also have "\<dots> = take_bit 6 p" by (simp add: take_bit_eq_mask)
  finally have "p AND 63 = take_bit 6 p" .
  moreover have "(take_bit 6 p = 0) = (unat p mod 64 = 0)"
    by (simp add: word_unat_eq_iff unsigned_take_bit_eq take_bit_eq_mod unat_mod)
  ultimately show ?thesis by (simp add: is_aligned_def MIN_BLOCK_ALIGN_def)
qed

lemma inv_card_live:
  assumes inv: "pool_inv s live fl"
  shows "card live = unat (max_entries s) - length fl"
proof -
  let ?N = "unat (max_entries s)"
  have lo: "layout_ok s" and d: "distinct fl" and sub: "set fl \<subseteq> {..<?N}"
    and lv: "live = slot s ` ({..<?N} - set fl)"
    using inv by (simp_all add: pool_inv_def)
  have "inj_on (slot s) ({..<?N} - set fl)"
    by (rule inj_onI) (auto intro: layout_slot_inj [OF lo])
  then have "card live = card ({..<?N} - set fl)" using lv by (simp add: card_image)
  also have "\<dots> = card {..<?N} - card (set fl)" using sub by (intro card_Diff_subset) simp_all
  finally show ?thesis using d by (simp add: distinct_card)
qed

section \<open>Concrete runs\<close>

lemma ctor_run_4_2: "MemoryPoolBase_ctor (zeroed_block_at 64) 4 2 = Inr (example_pool 2 64)"
  by code_simp

lemma malloc_ok_4_2: "malloc_block_ok (unat (2 * 4 :: uint_t)) MIN_BLOCK_ALIGN
               (zeroed_block_at 64 (unat (2 * 4 :: uint_t)) MIN_BLOCK_ALIGN)"
  by (simp add: malloc_block_ok_def zeroed_block_at_def MIN_BLOCK_ALIGN_def)

lemma alloc_run_0: "allocate (example_pool 2 64) = Inr (64, example_pool 1 68)"
  by code_simp

lemma alloc_run_1: "allocate (example_pool 1 68) = Inr (68, example_pool 0 0)"
  by code_simp

lemma alloc_run_2: "allocate (example_pool 0 0) = Inr (0, example_pool 0 0)"
  by code_simp

lemma dealloc_run_2: "deallocate (example_pool 0 0) 68 = Inr (example_pool 1 68)"
  by code_simp

lemma dealloc_run_1: "deallocate (example_pool 1 68) 64 = Inr (example_pool 2 64)"
  by code_simp

lemma reach_0: "reachable (example_pool 2 64) {}"
  by (rule reachable.construct [where malloc_block = "zeroed_block_at 64" and n = 2 and es = 4,
        OF malloc_ok_4_2 ctor_run_4_2])

lemma example_pool_fits:
  "unat (max_entries (example_pool free head)) * unat (entry_size (example_pool free head))
     < 2 ^ 32"
  by (simp add: example_pool_def)

lemma reach_1: "reachable (example_pool 1 68) {64}"
  using reachable.allocate [OF reach_0 alloc_run_0] by simp

lemma reach_2: "reachable (example_pool 0 0) {64, 68}"
proof -
  have "insert (68 :: addr) {64} = {64, 68}" by auto
  then show ?thesis using reachable.allocate [OF reach_1 alloc_run_1] by simp
qed


lemma malloc_ok_2_2: "malloc_block_ok (unat (2 * 2 :: uint_t)) MIN_BLOCK_ALIGN
       (zeroed_block_at 64 (unat (2 * 2 :: uint_t)) MIN_BLOCK_ALIGN)"
  by (simp add: malloc_block_ok_def zeroed_block_at_def MIN_BLOCK_ALIGN_def)

lemma ctor_run_2_2: "MemoryPoolBase_ctor (zeroed_block_at 64) 2 2 = Inl (BadAccess 66)"
  by code_simp

lemma reach_1_written: "reachable (caller_write (example_pool 1 68) 64 0 255) {64}"
  by (rule reachable.store [OF reach_1]) (simp_all add: example_pool_def)

lemma alloc_run_1_written:
  "allocate (caller_write (example_pool 1 68) 64 0 255)
     = Inr (68, caller_write (example_pool 0 0) 64 0 255)"
  by code_simp

section \<open>Runs on pools whose block size wraps around\<close>

lemma read_write_same_len:
  "length bs = len \<Longrightarrow> off + len \<le> length xs \<Longrightarrow>
   read_bytes (write_bytes xs off bs) off len = bs"
  using read_write_same [of off bs xs] by simp

lemmas exec_simps = store_uint_def load_uint_def accessible_def element_at_def index_of_def
  allocate_def deallocate_def length_write_bytes length_uint_bytes read_write_same_len
  read_write_other bytes_uint_uint_bytes

lemma ctor_wrap3:
  "MemoryPoolBase_ctor (zeroed_block_at 64) 2147483652 3 =
   Inr \<lparr>max_entries = 3, entry_size = 2147483652, num_free_entries = 3, pool_mem = 64,
      next_free = 64,
      block = write_bytes (write_bytes (write_bytes (replicate 2147483660 0) 0 (uint_bytes 1))
                2147483652 (uint_bytes 2)) 8 (uint_bytes 3)\<rparr>"
  by (simp add: MemoryPoolBase_ctor_def zeroed_block_at_def MIN_BLOCK_ALIGN_def
      init_free_list.simps exec_simps)

lemma run_dup:
  "fresh_run (zeroed_block_at 64) 2147483652 3
     [Allocate, Allocate, Deallocate 2147483716, Allocate, Allocate] []
   = Inr ([64, 2147483716, 2147483716, 64], 0, 0, [2147483716, 64], [])"
  by (simp add: fresh_run_def ctor_wrap3 exec_simps)


lemma malloc_ok_wrap3: "malloc_block_ok (unat (3 * 2147483652 :: uint_t)) MIN_BLOCK_ALIGN
       (zeroed_block_at 64 (unat (3 * 2147483652 :: uint_t)) MIN_BLOCK_ALIGN)"
  by (simp add: malloc_block_ok_def zeroed_block_at_def MIN_BLOCK_ALIGN_def)

lemma run_past_8:
  "fresh_run (zeroed_block_at 64) 2147483652 3
     [Allocate, Allocate, Allocate, Deallocate 64, Deallocate 72, Deallocate 2147483716,
      Allocate, Allocate] []
   = Inr ([64, 2147483716, 72, 2147483716, 64], 1, 2147483724, [64, 2147483716], [])"
  by (simp add: fresh_run_def ctor_wrap3 exec_simps)

lemma run_past_9:
  "fresh_run (zeroed_block_at 64) 2147483652 3
     [Allocate, Allocate, Allocate, Deallocate 64, Deallocate 72, Deallocate 2147483716,
      Allocate, Allocate, Allocate] []
   = Inr ([64, 2147483716, 72, 2147483716, 64, 2147483724], 0, 0,
          [2147483724, 64, 2147483716], [])"
  by (simp add: fresh_run_def ctor_wrap3 exec_simps)

lemma run_past_10:
  "fresh_run (zeroed_block_at 64) 2147483652 3
     [Allocate, Allocate, Allocate, Deallocate 64, Deallocate 72, Deallocate 2147483716,
      Allocate, Allocate, Allocate, Deallocate 2147483724] []
   = Inl (Faulted AssertionFailed)"
  by (simp add: fresh_run_def ctor_wrap3 exec_simps)

lemma run_index_4:
  "fresh_run (zeroed_block_at 64) 2147483652 3
     [Allocate, Allocate, Allocate, Deallocate 72] []
   = Inr ([64, 2147483716, 72], 1, 72, [2147483716, 64], [])"
  by (simp add: fresh_run_def ctor_wrap3 exec_simps)

lemma run_index_5:
  "fresh_run (zeroed_block_at 64) 2147483652 3
     [Allocate, Allocate, Allocate, Deallocate 72, Deallocate 2147483716] [2147483716]
   = Inr ([64, 2147483716, 72], 2, 2147483716, [64], [Inr 0])"
  by (simp add: fresh_run_def ctor_wrap3 exec_simps)

lemma ctor_wrap4:
  "MemoryPoolBase_ctor (zeroed_block_at 64) 2863311532 4 =
   Inr \<lparr>max_entries = 4, entry_size = 2863311532, num_free_entries = 4, pool_mem = 64,
      next_free = 64,
      block = write_bytes (write_bytes (write_bytes (write_bytes (replicate 2863311536 0)
                0 (uint_bytes 1)) 2863311532 (uint_bytes 2)) 1431655768 (uint_bytes 3))
                4 (uint_bytes 4)\<rparr>"
  by (simp add: MemoryPoolBase_ctor_def zeroed_block_at_def MIN_BLOCK_ALIGN_def
      init_free_list.simps exec_simps)

lemma malloc_ok_wrap4: "malloc_block_ok (unat (4 * 2863311532 :: uint_t)) MIN_BLOCK_ALIGN
       (zeroed_block_at 64 (unat (4 * 2863311532 :: uint_t)) MIN_BLOCK_ALIGN)"
  by (simp add: malloc_block_ok_def zeroed_block_at_def MIN_BLOCK_ALIGN_def)

lemma run_read_10:
  "fresh_run (zeroed_block_at 64) 2863311532 4
     [Allocate, Allocate, Allocate, Allocate, Deallocate 64, Deallocate 1431655832,
      Deallocate 68, Deallocate 2863311596, Allocate, Allocate] []
   = Inr ([64, 2863311596, 1431655832, 68, 2863311596, 64], 2, 2863311600,
          [64, 2863311596], [])"
  by (simp add: fresh_run_def ctor_wrap4 exec_simps)

lemma run_read_11:
  "fresh_run (zeroed_block_at 64) 2863311532 4
     [Allocate, Allocate, Allocate, Allocate, Deallocate 64, Deallocate 1431655832,
      Deallocate 68, Deallocate 2863311596, Allocate, Allocate, Allocate] []
   = Inl (Faulted (BadAccess 2863311600))"
  by (simp add: fresh_run_def ctor_wrap4 exec_simps)

lemma run_past4_10:
  "fresh_run (zeroed_block_at 64) 2863311532 4
     [Allocate, Allocate, Allocate, Allocate, Deallocate 64, Deallocate 1431655832,
      Deallocate 2863311596, Allocate, Allocate, Allocate] []
   = Inr ([64, 2863311596, 1431655832, 68, 2863311596, 64, 2863311600], 0, 0,
          [2863311600, 64, 2863311596, 68], [])"
  by (simp add: fresh_run_def ctor_wrap4 exec_simps)

lemma run_past4_11:
  "fresh_run (zeroed_block_at 64) 2863311532 4
     [Allocate, Allocate, Allocate, Allocate, Deallocate 64, Deallocate 1431655832,
      Deallocate 2863311596, Allocate, Allocate, Allocate, Deallocate 2863311600] []
   = Inl (Faulted AssertionFailed)"
  by (simp add: fresh_run_def ctor_wrap4 exec_simps)

lemma fresh_alloc_run_4_2: "fresh_allocations (zeroed_block_at 64) 4 2 2 = Inr [64, 68]"
  by code_simp

lemma not_aligned_68: "\<not> is_aligned 68 MIN_BLOCK_ALIGN"
  by code_simp

section \<open>The claims\<close>

text \<open>
  C1. On a freshly constructed pool of capacity \<open>n\<close>, \<open>n\<close> consecutive calls of
  \<^verbatim>\<open>allocate()\<close> all return, each a non-null address (and no two the same); the next
  call returns null, and \<^verbatim>\<open>get_stats().allocation_count\<close> is then \<open>n\<close>.
\<close>

theorem capacity_bound:
  assumes "malloc_block_ok (unat (n * es)) MIN_BLOCK_ALIGN
               (malloc_block (unat (n * es)) MIN_BLOCK_ALIGN)"
    and "MemoryPoolBase_ctor malloc_block es n = Inr s"
  shows "\<exists>ps s'. allocate_n (unat n) s = Inr (ps, s') \<and> length ps = unat n \<and> 0 \<notin> set ps
           \<and> distinct ps \<and> allocate s' = Inr (0, s')
           \<and> allocation_count (get_stats s') = unat n"
proof -
  note f = ctor_unfold [OF assms(2)]
  have fr: "fresh_after s 0" using assms by (rule ctor_fresh)
  from fresh_alloc_n [OF fr, of "unat n"] obtain s' where
    r: "allocate_n (unat n) s = Inr (map (slot s) [0..<unat n], s')"
    and z: "num_free_entries s' = 0" "max_entries s' = n"
    by (auto simp add: f(1))
  have acc: "accessible s (slot s k) 4" if "k < unat n" for k
  proof -
    have "k < 4294967296" using that unat_lt32 [of n] by simp
    then have "word_of_nat k < n" using that by (simp add: word_less_nat_alt unat_of_nat_uint)
    then show ?thesis using f(7) by (simp add: slot_def)
  qed
  have "0 \<notin> set (map (slot s) [0..<unat n])"
    using acc accessible_nonnull by fastforce
  moreover have "distinct (map (slot s) [0..<unat n])"
  proof (subst distinct_map, intro conjI inj_onI)
    show "distinct [0..<unat n]" by simp
    fix i j assume ij: "i \<in> set [0..<unat n]" "j \<in> set [0..<unat n]" "slot s i = slot s j"
    then have lt: "i < unat n" "j < unat n" by simp_all
    then have b: "i < 4294967296" "j < 4294967296" using unat_lt32 [of n] by simp_all
    show "i = j"
    proof (rule ccontr)
      assume "i \<noteq> j"
      then have "(word_of_nat i :: uint_t) \<noteq> word_of_nat j"
        using b by (metis unat_of_nat_uint)
      moreover have "(word_of_nat i :: uint_t) < n" "(word_of_nat j :: uint_t) < n"
        using lt b by (simp_all add: word_less_nat_alt unat_of_nat_uint)
      ultimately have "unat (slot s i) + 4 \<le> unat (slot s j)
          \<or> unat (slot s j) + 4 \<le> unat (slot s i)"
        unfolding slot_def by (intro ctor_apart [OF assms(2,1)])
      then show False using ij(3) by simp
    qed
  qed
  moreover have "allocate s' = Inr (0, s')" using z(1) by (rule allocate_empty)
  moreover have "allocation_count (get_stats s') = unat n" by (simp add: get_stats_def z)
  ultimately show ?thesis using r by simp
qed

theorem capacity_bound_witness:
  "malloc_block_ok (unat (2 * 4 :: uint_t)) MIN_BLOCK_ALIGN
       (zeroed_block_at 64 (unat (2 * 4 :: uint_t)) MIN_BLOCK_ALIGN)
   \<and> (\<exists>s ps s'. MemoryPoolBase_ctor (zeroed_block_at 64) 4 2 = Inr s
         \<and> allocate_n (unat (2 :: uint_t)) s = Inr (ps, s') \<and> length ps = unat (2 :: uint_t)
         \<and> 0 \<notin> set ps \<and> distinct ps \<and> allocate s' = Inr (0, s')
         \<and> allocation_count (get_stats s') = unat (2 :: uint_t))"
  using capacity_bound
      [where malloc_block = "zeroed_block_at 64" and n = 2 and es = 4,
       OF malloc_ok_4_2 ctor_run_4_2]
    malloc_ok_4_2 ctor_run_4_2
  by blast

text \<open>
  C2 (as amended). In a reachable state of a pool whose block size
  \<^verbatim>\<open>max_entries * entry_size\<close> does not wrap around in \<^verbatim>\<open>uint_t\<close>, when
  \<^verbatim>\<open>allocate()\<close> returns a non-null \<open>p\<close> and \<^verbatim>\<open>deallocate(p)\<close> is the next
  call on the pool, the deallocation succeeds and the next \<^verbatim>\<open>allocate()\<close> returns
  exactly \<open>p\<close>, whatever the callers write in between into the entries they hold: the free
  list is last in, first out.
\<close>

theorem lifo_reuse:
  assumes "reachable s live"
    and "unat (max_entries s) * unat (entry_size s) < 2 ^ 32"
    and "allocate s = Inr (p, s1)" and "p \<noteq> 0"
    and "\<forall>w \<in> set ws1. fst w \<in> insert p live \<and> fst (snd w) < unat (entry_size s)"
    and "\<forall>w \<in> set ws2. fst w \<in> live - {p} \<and> fst (snd w) < unat (entry_size s)"
  shows "\<exists>s2 s3. deallocate (caller_writes s1 ws1) p = Inr s2
           \<and> allocate (caller_writes s2 ws2) = Inr (p, s3)"
proof -
  obtain fl where inv: "pool_inv s live fl" using assms(1,2) reachable_inv by blast
  obtain i r where fl: "fl = i # r"
    using assms(3,4) alloc_step_empty inv by (cases fl) auto
  from alloc_step [OF inv [unfolded fl]] assms(3)
  have p: "p = slot s i" and inv1: "pool_inv s1 (insert p live) r"
    and f1: "max_entries s1 = max_entries s" "entry_size s1 = entry_size s"
      "pool_mem s1 = pool_mem s"
    by auto
  have i: "i < unat (max_entries s)" "i \<notin> set r"
    using inv fl by (simp_all add: pool_inv_def)
  let ?t1 = "caller_writes s1 ws1"
  have w1: "pool_inv ?t1 (insert p live) r" and g1: "max_entries ?t1 = max_entries s1"
    "entry_size ?t1 = entry_size s1" "pool_mem ?t1 = pool_mem s1"
    using caller_writes_inv [OF inv1, of ws1] assms(5) by (simp_all add: f1)
  have sl1: "slot ?t1 = slot s" by (rule slot_cong) (simp_all add: g1 f1)
  have i1: "i < unat (max_entries ?t1)" using i by (simp add: g1 f1)
  from dealloc_step [OF w1 i1 i(2)] obtain s2 where
    d: "deallocate ?t1 p = Inr s2" and inv2: "pool_inv s2 (insert p live - {p}) (i # r)"
    and f2: "max_entries s2 = max_entries ?t1" "entry_size s2 = entry_size ?t1"
      "pool_mem s2 = pool_mem ?t1"
    unfolding sl1 p by blast
  let ?t2 = "caller_writes s2 ws2"
  have w2: "pool_inv ?t2 (insert p live - {p}) (i # r)" and g2: "entry_size ?t2 = entry_size s2"
    "pool_mem ?t2 = pool_mem s2"
    using caller_writes_inv [OF inv2, of ws2] assms(6) by (simp_all add: f2 g1 f1)
  have sl2: "slot ?t2 = slot s" by (rule slot_cong) (simp_all add: g2 f2 g1 f1)
  from alloc_step [OF w2] obtain s3 where "allocate ?t2 = Inr (slot ?t2 i, s3)" by blast
  then show ?thesis using d by (auto simp add: sl2 p)
qed

theorem lifo_reuse_witness:
  "reachable (caller_write (example_pool 1 68) 64 0 255) {64}
   \<and> allocate (caller_write (example_pool 1 68) 64 0 255)
       = Inr (68, caller_write (example_pool 0 0) 64 0 255)
   \<and> (\<exists>s2 s3. deallocate
          (caller_writes (caller_write (example_pool 0 0) 64 0 255) [(68, 1, 7)]) 68 = Inr s2
         \<and> allocate (caller_writes s2 [(64, 2, 9)]) = Inr (68, s3))"
proof -
  let ?s = "caller_write (example_pool 1 68) 64 0 255"
  have nw: "unat (max_entries ?s) * unat (entry_size ?s) < 2 ^ 32"
    using example_pool_fits [of 1 68] by (simp add: caller_write_fields)
  have w1: "\<forall>w \<in> set [(68 :: addr, 1 :: nat, 7 :: byte)].
      fst w \<in> insert 68 {64} \<and> fst (snd w) < unat (entry_size ?s)"
    by (simp add: caller_write_fields example_pool_def)
  have w2: "\<forall>w \<in> set [(64 :: addr, 2 :: nat, 9 :: byte)].
      fst w \<in> {64} - {68} \<and> fst (snd w) < unat (entry_size ?s)"
    by (simp add: caller_write_fields example_pool_def)
  have "(68 :: addr) \<noteq> 0" by simp
  from lifo_reuse [OF reach_1_written nw alloc_run_1_written this w1 w2]
    reach_1_written alloc_run_1_written
  show ?thesis by simp
qed

text \<open>
  Three entries of 2147483652 bytes: the block size wraps around to 2147483660 bytes, the
  constructor returns, and \<^verbatim>\<open>index_of\<close> takes entry 2, at offset 8, for entry 0.
  After three allocations and the deallocations of entries 0, 2 and 1, the third of three more
  allocations returns the address one past the block, and \<^verbatim>\<open>deallocate\<close> of that
  address fails its assertion.
\<close>

theorem lifo_reuse_counterexample:
  "malloc_block_ok (unat (3 * 2147483652 :: uint_t)) MIN_BLOCK_ALIGN
       (zeroed_block_at 64 (unat (3 * 2147483652 :: uint_t)) MIN_BLOCK_ALIGN)
   \<and> fresh_run (zeroed_block_at 64) 2147483652 3
        [Allocate, Allocate, Allocate, Deallocate 64, Deallocate 72, Deallocate 2147483716,
         Allocate, Allocate, Allocate] []
      = Inr ([64, 2147483716, 72, 2147483716, 64, 2147483724], 0, 0,
             [2147483724, 64, 2147483716], [])
   \<and> fresh_run (zeroed_block_at 64) 2147483652 3
        [Allocate, Allocate, Allocate, Deallocate 64, Deallocate 72, Deallocate 2147483716,
         Allocate, Allocate, Allocate, Deallocate 2147483724] []
      = Inl (Faulted AssertionFailed)"
  using malloc_ok_wrap3 run_past_9 run_past_10 by simp

text \<open>
  C3 (as amended). In a reachable state of a pool whose block size does not wrap around in
  \<^verbatim>\<open>uint_t\<close>: with free count zero \<^verbatim>\<open>allocate()\<close> returns null and leaves
  the whole state as it is; with any other free count it returns a non-null address, so an
  empty pool is the only way allocation fails.
\<close>

theorem exhausted_allocate:
  assumes "reachable s live" and "unat (max_entries s) * unat (entry_size s) < 2 ^ 32"
  shows "(num_free_entries s = 0 \<longrightarrow> allocate s = Inr (0, s))
       \<and> (num_free_entries s \<noteq> 0 \<longrightarrow> (\<exists>p s'. allocate s = Inr (p, s') \<and> p \<noteq> 0))"
proof -
  obtain fl where inv: "pool_inv s live fl" using assms reachable_inv by blast
  show ?thesis
  proof (cases fl)
    case Nil
    then show ?thesis using inv inv_length(3) [OF inv] by (simp add: allocate_empty)
  next
    case (Cons i r)
    then have "num_free_entries s \<noteq> 0" using inv_length(3) [OF inv] by simp
    then show ?thesis using alloc_step [OF inv [unfolded Cons]] by blast
  qed
qed

theorem exhausted_allocate_witness:
  "reachable (example_pool 0 0) {64, 68} \<and> num_free_entries (example_pool 0 0) = 0
   \<and> allocate (example_pool 0 0) = Inr (0, example_pool 0 0)
   \<and> reachable (example_pool 1 68) {64} \<and> num_free_entries (example_pool 1 68) \<noteq> 0
   \<and> (\<exists>p s'. allocate (example_pool 1 68) = Inr (p, s') \<and> p \<noteq> 0)"
  using exhausted_allocate [OF reach_2 example_pool_fits]
    exhausted_allocate [OF reach_1 example_pool_fits] reach_1 reach_2
  by (simp add: example_pool_def)

text \<open>
  Four entries of 2863311532 bytes: the block size wraps around to 2863311536 bytes and the
  constructor returns. After four allocations, the deallocations of entries 0, 2, 3 and 1 and
  two more allocations, the free count is 2 and the free head is one past the block: the
  next \<^verbatim>\<open>allocate()\<close> reads its link outside the block.
\<close>

theorem exhausted_allocate_counterexample:
  "malloc_block_ok (unat (4 * 2863311532 :: uint_t)) MIN_BLOCK_ALIGN
       (zeroed_block_at 64 (unat (4 * 2863311532 :: uint_t)) MIN_BLOCK_ALIGN)
   \<and> fresh_run (zeroed_block_at 64) 2863311532 4
        [Allocate, Allocate, Allocate, Allocate, Deallocate 64, Deallocate 1431655832,
         Deallocate 68, Deallocate 2863311596, Allocate, Allocate] []
      = Inr ([64, 2863311596, 1431655832, 68, 2863311596, 64], 2, 2863311600,
             [64, 2863311596], [])
   \<and> fresh_run (zeroed_block_at 64) 2863311532 4
        [Allocate, Allocate, Allocate, Allocate, Deallocate 64, Deallocate 1431655832,
         Deallocate 68, Deallocate 2863311596, Allocate, Allocate, Allocate] []
      = Inl (Faulted (BadAccess 2863311600))"
  using malloc_ok_wrap4 run_read_10 run_read_11 by simp

text \<open>
  C4 (as amended). In a reachable state of a pool whose block size does not wrap around in
  \<^verbatim>\<open>uint_t\<close>, \<^verbatim>\<open>deallocate(p)\<close> of an address \<open>p\<close> held by a caller
  succeeds. It writes one word \<open>v\<close> at the start of the slot at \<open>p\<close>, the index of the
  entry the free head pointed to (the sentinel \<^verbatim>\<open>max_entries_\<close> when the free list
  was empty, which is when the free head is null); it makes \<open>p\<close> the free head and adds one
  to the free count; the rest of the pool stays as it was.
\<close>

theorem deallocate_effect:
  assumes "reachable s live" and "unat (max_entries s) * unat (entry_size s) < 2 ^ 32"
    and "p \<in> live"
  shows "\<exists>s' v. deallocate s p = Inr s'
           \<and> block s' = write_bytes (block s) (unat p - unat (pool_mem s)) (uint_bytes v)
           \<and> load_uint s' p = Inr v
           \<and> (if next_free s = 0 then v = max_entries s
               else v < max_entries s \<and> element_at s v = next_free s)
           \<and> (next_free s = 0) = (num_free_entries s = 0)
           \<and> next_free s' = p
           \<and> num_free_entries s' = num_free_entries s + 1
           \<and> unat (num_free_entries s') = unat (num_free_entries s) + 1
           \<and> max_entries s' = max_entries s \<and> entry_size s' = entry_size s
           \<and> pool_mem s' = pool_mem s"
proof -
  obtain fl where inv: "pool_inv s live fl" using assms(1,2) reachable_inv by blast
  then obtain i where i: "i < unat (max_entries s)" "i \<notin> set fl" "p = slot s i"
    using assms(3) by (auto simp add: pool_inv_def)
  have mz: "max_entries s \<noteq> 0" using i by auto
  define v where "v = (if next_free s = 0 then max_entries s else word_of_nat (hd fl))"
  from dealloc_step [OF inv i(1,2)] obtain s' where
    d: "deallocate s p = Inr s'" and inv': "pool_inv s' (live - {p}) (i # fl)"
    and nx: "next_free s' = p" and nf: "num_free_entries s' = num_free_entries s + 1"
    and ld: "load_uint s' p = Inr v"
    and hd: "next_free s \<noteq> 0 \<longrightarrow> next_free s = slot s (hd fl) \<and> hd fl < unat (max_entries s)"
    and f: "max_entries s' = max_entries s" "entry_size s' = entry_size s"
      "pool_mem s' = pool_mem s"
    and bl: "block s' = write_bytes (block s) (unat p - unat (pool_mem s)) (uint_bytes v)"
    unfolding v_def i(3) by blast
  have u: "unat (num_free_entries s') = unat (num_free_entries s) + 1"
    using inv_length(2) [OF inv] inv_length(2) [OF inv'] by simp
  have z: "(next_free s = 0) = (num_free_entries s = 0)"
    using inv_head [OF inv mz] inv_length(3) [OF inv] by simp
  have "v < max_entries s \<and> element_at s v = next_free s" if "next_free s \<noteq> 0"
  proof -
    have h: "next_free s = slot s (hd fl)" "hd fl < unat (max_entries s)" using hd that by simp_all
    then have "hd fl < 4294967296" using unat_lt32 [of "max_entries s"] by simp
    then have "(word_of_nat (hd fl) :: uint_t) < max_entries s"
      using h(2) by (simp add: word_less_nat_alt unat_of_nat_uint)
    then show ?thesis using h(1) that by (simp add: slot_def v_def)
  qed
  moreover have "next_free s = 0 \<Longrightarrow> v = max_entries s" by (simp add: v_def)
  ultimately have "if next_free s = 0 then v = max_entries s
      else v < max_entries s \<and> element_at s v = next_free s" by simp
  then show ?thesis using d bl ld z nx nf u f by blast
qed

theorem deallocate_effect_witness:
  "reachable (example_pool 0 0) {64, 68} \<and> (68 :: addr) \<in> {64, 68}
   \<and> (\<exists>s'. deallocate (example_pool 0 0) 68 = Inr s' \<and> next_free s' = 68
        \<and> unat (num_free_entries s') = 1 \<and> load_uint s' 68 = Inr 2)
   \<and> reachable (example_pool 1 68) {64} \<and> (64 :: addr) \<in> {64}
   \<and> (\<exists>s' v. deallocate (example_pool 1 68) 64 = Inr s' \<and> next_free s' = 64
        \<and> unat (num_free_entries s') = 2 \<and> v < 2 \<and> element_at (example_pool 1 68) v = 68
        \<and> load_uint s' 64 = Inr v)"
proof -
  have m: "(68 :: addr) \<in> {64, 68}" "(64 :: addr) \<in> {64}" by simp_all
  from deallocate_effect [OF reach_2 example_pool_fits m(1)]
    deallocate_effect [OF reach_1 example_pool_fits m(2)] reach_1 reach_2
  show ?thesis
    by (auto simp add: example_pool_def)
qed

text \<open>
  Three entries of 2147483652 bytes, all allocated (entry 0 at 64, entry 1 at 2147483716,
  entry 2 at 72). After \<^verbatim>\<open>deallocate\<close> of entry 2 the free head is entry 2; the
  \<^verbatim>\<open>deallocate\<close> of entry 1 then stores the index 0 in it, not 2.
\<close>

theorem deallocate_effect_counterexample:
  "malloc_block_ok (unat (3 * 2147483652 :: uint_t)) MIN_BLOCK_ALIGN
       (zeroed_block_at 64 (unat (3 * 2147483652 :: uint_t)) MIN_BLOCK_ALIGN)
   \<and> fresh_run (zeroed_block_at 64) 2147483652 3
        [Allocate, Allocate, Allocate, Deallocate 72] []
      = Inr ([64, 2147483716, 72], 1, 72, [2147483716, 64], [])
   \<and> fresh_run (zeroed_block_at 64) 2147483652 3
        [Allocate, Allocate, Allocate, Deallocate 72, Deallocate 2147483716] [2147483716]
      = Inr ([64, 2147483716, 72], 2, 2147483716, [64], [Inr 0])"
  using malloc_ok_wrap3 run_index_4 run_index_5 by simp

text \<open>
  C5 (as amended). Whenever construction completes, the free count equals the capacity, the
  free head is entry 0 and every entry \<open>i\<close> below the capacity stores \<open>i + 1\<close> in its first
  word, the last one the sentinel. Construction does complete when the allocator supplies the
  block, an entry is at least as large as the 4-byte link and the block size fits
  \<^verbatim>\<open>uint_t\<close>.
\<close>

theorem construction_initial_state:
  assumes "malloc_block_ok (unat (n * es)) MIN_BLOCK_ALIGN
               (malloc_block (unat (n * es)) MIN_BLOCK_ALIGN)"
  shows "(\<forall>s. MemoryPoolBase_ctor malloc_block es n = Inr s \<longrightarrow>
            max_entries s = n \<and> num_free_entries s = n \<and> next_free s = element_at s 0
            \<and> (\<forall>i. i < n \<longrightarrow> load_uint s (element_at s i) = Inr (i + 1)))
       \<and> (fst (malloc_block (unat (n * es)) MIN_BLOCK_ALIGN) \<noteq> 0 \<and> 4 \<le> unat es
            \<and> unat n * unat es < 2 ^ 32 \<longrightarrow>
          (\<exists>s. MemoryPoolBase_ctor malloc_block es n = Inr s))"
proof (intro conjI allI impI)
  fix s assume c: "MemoryPoolBase_ctor malloc_block es n = Inr s"
  note f = ctor_unfold [OF c]
  show "max_entries s = n" "num_free_entries s = n" by (rule f)+
  show "next_free s = element_at s 0" using f(4,5) by (simp add: element_at_0)
  fix i assume "i < n"
  then show "load_uint s (element_at s i) = Inr (i + 1)" by (rule ctor_links [OF c assms])
next
  assume "fst (malloc_block (unat (n * es)) MIN_BLOCK_ALIGN) \<noteq> 0 \<and> 4 \<le> unat es
            \<and> unat n * unat es < 2 ^ 32"
  then show "\<exists>s. MemoryPoolBase_ctor malloc_block es n = Inr s"
    using ctor_succeeds [where malloc_block = malloc_block and n = n and es = es, OF assms]
    by blast
qed

theorem construction_initial_state_witness:
  "malloc_block_ok (unat (2 * 4 :: uint_t)) MIN_BLOCK_ALIGN
               (zeroed_block_at 64 (unat (2 * 4 :: uint_t)) MIN_BLOCK_ALIGN)
   \<and> (\<exists>s. MemoryPoolBase_ctor (zeroed_block_at 64) 4 2 = Inr s
       \<and> max_entries s = 2 \<and> num_free_entries s = 2 \<and> next_free s = element_at s 0
       \<and> load_uint s (element_at s 0) = Inr 1 \<and> load_uint s (element_at s 1) = Inr 2)"
proof -
  have 1: "(0 :: uint_t) < 2" "(1 :: uint_t) < 2" by simp_all
  show ?thesis
    using construction_initial_state
        [where malloc_block = "zeroed_block_at 64" and n = 2 and es = 4, OF malloc_ok_4_2]
      ctor_run_4_2 malloc_ok_4_2 1
    by (metis one_add_one add.left_neutral)
qed

text \<open>
  With 2-byte entries the link of entry 0 fills the whole 4-byte block and the link of entry 1
  is written past its end: construction runs outside the block instead of producing a pool.
\<close>

theorem construction_small_entry_counterexample:
  "malloc_block_ok (unat (2 * 2 :: uint_t)) MIN_BLOCK_ALIGN
       (zeroed_block_at 64 (unat (2 * 2 :: uint_t)) MIN_BLOCK_ALIGN)
   \<and> MemoryPoolBase_ctor (zeroed_block_at 64) 2 2 = Inl (BadAccess 66)"
  using malloc_ok_2_2 ctor_run_2_2 by simp

text \<open>
  C6. In every reachable state the free count is at most the capacity, and
  \<^verbatim>\<open>get_stats().allocation_count\<close> plus the free count is the capacity. When the
  block size does not wrap around in \<^verbatim>\<open>uint_t\<close>, the allocation count is also the
  number of addresses the callers hold.
\<close>

theorem conservation:
  assumes "reachable s live"
  shows "unat (num_free_entries s) \<le> unat (max_entries s)
       \<and> allocation_count (get_stats s) + unat (num_free_entries s) = unat (max_entries s)
       \<and> (unat (max_entries s) * unat (entry_size s) < 2 ^ 32 \<longrightarrow>
            allocation_count (get_stats s) = card live)"
proof -
  have le: "unat (num_free_entries s) \<le> unat (max_entries s)"
    using reachable_count [OF assms] by simp
  then have "num_free_entries s \<le> max_entries s" by (simp add: word_le_nat_alt)
  then have ac: "allocation_count (get_stats s)
      = unat (max_entries s) - unat (num_free_entries s)"
    by (simp add: get_stats_def unat_sub)
  have "allocation_count (get_stats s) = card live"
    if nw: "unat (max_entries s) * unat (entry_size s) < 2 ^ 32"
  proof -
    obtain fl where inv: "pool_inv s live fl" using assms nw reachable_inv by blast
    show ?thesis using ac inv_length(2) [OF inv] inv_card_live [OF inv] by simp
  qed
  then show ?thesis using le ac by simp
qed

theorem conservation_witness:
  "reachable (example_pool 1 68) {64}
   \<and> unat (num_free_entries (example_pool 1 68)) \<le> unat (max_entries (example_pool 1 68))
   \<and> allocation_count (get_stats (example_pool 1 68)) + unat (num_free_entries (example_pool 1 68))
       = unat (max_entries (example_pool 1 68))
   \<and> allocation_count (get_stats (example_pool 1 68)) = card {64 :: addr}"
  using conservation [OF reach_1] reach_1 example_pool_fits [of 1 68] by simp

text \<open>
  C7 (as amended). In a reachable state of a pool whose block size does not wrap around in
  \<^verbatim>\<open>uint_t\<close>, a non-null address returned by \<^verbatim>\<open>allocate()\<close> is held by
  no caller, lies with its whole entry inside the block, and is the address
  \<open>pool_mem + i * entry_size\<close> of an entry \<open>i\<close> below the capacity. The block is aligned
  to 64 bytes; the address is so exactly when \<open>i * entry_size\<close> is a multiple of 64.
\<close>

theorem allocate_address:
  assumes "reachable s live" and "unat (max_entries s) * unat (entry_size s) < 2 ^ 32"
    and "allocate s = Inr (p, s')" and "p \<noteq> 0"
  shows "p \<notin> live
       \<and> pool_mem s \<le> p
       \<and> unat p + unat (entry_size s)
            \<le> unat (pool_mem s) + unat (max_entries s) * unat (entry_size s)
       \<and> unat (pool_mem s) + unat (max_entries s) * unat (entry_size s) < 2 ^ 64
       \<and> is_aligned (pool_mem s) MIN_BLOCK_ALIGN
       \<and> (\<exists>i. i < max_entries s \<and> p = element_at s i
              \<and> unat p = unat (pool_mem s) + unat i * unat (entry_size s)
              \<and> is_aligned p MIN_BLOCK_ALIGN = (unat i * unat (entry_size s) mod 64 = 0))"
proof -
  let ?N = "unat (max_entries s)" and ?e = "unat (entry_size s)" and ?P = "unat (pool_mem s)"
  obtain fl where inv: "pool_inv s live fl" using assms(1,2) reachable_inv by blast
  obtain i r where fl: "fl = i # r"
    using assms(3,4) alloc_step_empty inv by (cases fl) auto
  have p: "p = slot s i" and fresh: "p \<notin> live"
    using alloc_step [OF inv [unfolded fl]] assms(3) by auto
  have lo: "layout_ok s" and i: "i < ?N" using inv fl by (simp_all add: pool_inv_def)
  note g = layout_slot [OF lo i]
  have mz: "max_entries s \<noteq> 0" using i by auto
  have al: "?P mod 64 = 0" and top: "?P + ?N * ?e < 2 ^ 64"
    using lo mz by (simp_all add: layout_ok_def)
  have i32: "i < 4294967296" using i unat_lt32 [of "max_entries s"] by simp
  then have ui: "unat (word_of_nat i :: uint_t) = i" by (rule unat_of_nat_uint)
  have "i * ?e + ?e \<le> ?N * ?e" using g(6) by (simp add: algebra_simps)
  then have rng: "unat p + ?e \<le> ?P + ?N * ?e" using g(1) p by simp
  have lb: "pool_mem s \<le> p" using g(1) p by (simp add: word_le_nat_alt)
  have "(?P + i * ?e) mod 64 = (i * ?e) mod 64" using al by (simp add: mod_add_left_eq [symmetric] del: mod_add_left_eq)
  then have ap: "is_aligned p MIN_BLOCK_ALIGN = (i * ?e mod 64 = 0)"
    using g(1) p by (simp add: is_aligned_64)
  have "word_of_nat i < max_entries s" using i ui by (simp add: word_less_nat_alt)
  then have "\<exists>j. j < max_entries s \<and> p = element_at s j
              \<and> unat p = ?P + unat j * ?e
              \<and> is_aligned p MIN_BLOCK_ALIGN = (unat j * ?e mod 64 = 0)"
    using p g(1) ap ui by (intro exI [of _ "word_of_nat i"]) (simp add: slot_def)
  then show ?thesis using fresh lb rng top al by (simp add: is_aligned_64)
qed

theorem allocate_address_witness:
  "reachable (example_pool 1 68) {64}
   \<and> allocate (example_pool 1 68) = Inr (68, example_pool 0 0) \<and> (68 :: addr) \<noteq> 0
   \<and> (68 :: addr) \<notin> {64} \<and> pool_mem (example_pool 1 68) \<le> 68
   \<and> is_aligned (pool_mem (example_pool 1 68)) MIN_BLOCK_ALIGN
   \<and> (\<exists>i. i < max_entries (example_pool 1 68) \<and> 68 = element_at (example_pool 1 68) i)"
proof -
  have "(68 :: addr) \<noteq> 0" by simp
  from allocate_address [OF reach_1 example_pool_fits alloc_run_1 this] reach_1 alloc_run_1
  show ?thesis
    by auto
qed

text \<open>
  The second address a fresh pool of two 4-byte entries hands out is 4 bytes after the block's
  start, and not aligned to 64 bytes. And with three entries of 2147483652 bytes, a block size
  that wraps around, the fourth allocation of the run below returns the address 64 that the
  caller has held since the first.
\<close>

theorem allocate_alignment_counterexample:
  "fresh_allocations (zeroed_block_at 64) 4 2 2 = Inr [64, 68]
   \<and> \<not> is_aligned 68 MIN_BLOCK_ALIGN
   \<and> malloc_block_ok (unat (3 * 2147483652 :: uint_t)) MIN_BLOCK_ALIGN
       (zeroed_block_at 64 (unat (3 * 2147483652 :: uint_t)) MIN_BLOCK_ALIGN)
   \<and> fresh_run (zeroed_block_at 64) 2147483652 3
        [Allocate, Allocate, Deallocate 2147483716, Allocate, Allocate] []
      = Inr ([64, 2147483716, 2147483716, 64], 0, 0, [2147483716, 64], [])"
  using fresh_alloc_run_4_2 not_aligned_68 malloc_ok_wrap3 run_dup by simp

text \<open>
  C8. When the allocator fails, the constructor stores the null pointer without checking
  it and the first pass of its loop writes through it.
\<close>

theorem construction_unchecked_null_block:
  "MemoryPoolBase_ctor failing_malloc 4 1 = Inl (BadAccess 0)"
  by code_simp

text \<open>
  C9 (as amended). In every reachable state of a pool with capacity above zero whose block
  size does not wrap around in \<^verbatim>\<open>uint_t\<close>, the free count is zero exactly when the
  free head is null. With free count one, \<^verbatim>\<open>allocate()\<close> returns the free head and
  sets it to null whatever the block holds; with free count zero, \<^verbatim>\<open>deallocate(p)\<close>
  makes \<open>p\<close> the non-null free head and stores the sentinel \<^verbatim>\<open>max_entries_\<close> in
  its slot.
\<close>

theorem free_head_null_iff:
  assumes "reachable s live" and "unat (max_entries s) * unat (entry_size s) < 2 ^ 32"
    and "max_entries s \<noteq> 0"
  shows "(num_free_entries s = 0) = (next_free s = 0)
       \<and> (num_free_entries s = 1 \<longrightarrow>
            (\<forall>b. allocate (s\<lparr>block := b\<rparr>)
                 = Inr (next_free s, s\<lparr>block := b, num_free_entries := 0, next_free := 0\<rparr>)))
       \<and> (\<forall>p. p \<in> live \<and> num_free_entries s = 0 \<longrightarrow>
            (\<exists>s'. deallocate s p = Inr s' \<and> next_free s' = p \<and> p \<noteq> 0
                \<and> num_free_entries s' = 1 \<and> load_uint s' p = Inr (max_entries s)))"
proof (intro conjI impI allI)
  obtain fl where inv: "pool_inv s live fl" using assms(1,2) reachable_inv by blast
  show z: "(num_free_entries s = 0) = (next_free s = 0)"
    using inv_head [OF inv assms(3)] inv_length(3) [OF inv] by simp
  show "allocate (s\<lparr>block := b\<rparr>)
      = Inr (next_free s, s\<lparr>block := b, num_free_entries := 0, next_free := 0\<rparr>)"
    if "num_free_entries s = 1" for b
    using that by (simp add: allocate_def)
  fix p assume a: "p \<in> live \<and> num_free_entries s = 0"
  then obtain i where i: "i < unat (max_entries s)" "i \<notin> set fl" "p = slot s i"
    using inv by (auto simp add: pool_inv_def)
  have lo: "layout_ok s" using inv by (simp add: pool_inv_def)
  from dealloc_step [OF inv i(1,2)] a z i(3) layout_slot(3) [OF lo i(1)]
  show "\<exists>s'. deallocate s p = Inr s' \<and> next_free s' = p \<and> p \<noteq> 0
                \<and> num_free_entries s' = 1 \<and> load_uint s' p = Inr (max_entries s)"
    by auto
qed

theorem free_head_null_iff_witness:
  "reachable (example_pool 0 0) {64, 68} \<and> max_entries (example_pool 0 0) \<noteq> 0
   \<and> (num_free_entries (example_pool 0 0) = 0) = (next_free (example_pool 0 0) = 0)
   \<and> (68 :: addr) \<in> {64, 68} \<and> num_free_entries (example_pool 0 0) = 0
   \<and> (\<exists>s'. deallocate (example_pool 0 0) 68 = Inr s' \<and> next_free s' = 68
         \<and> load_uint s' 68 = Inr (max_entries (example_pool 0 0)))"
proof -
  have m: "max_entries (example_pool 0 0) \<noteq> 0" "num_free_entries (example_pool 0 0) = 0"
    by (simp_all add: example_pool_def)
  have "(68 :: addr) \<in> {64, 68}" by simp
  then show ?thesis
    using free_head_null_iff [OF reach_2 example_pool_fits m(1)] reach_2 m by blast
qed

text \<open>
  Four entries of 2863311532 bytes, a block size that wraps around. The run below ends with
  free count 0, a null free head and the caller holding the address one past the block, which
  the seventh \<^verbatim>\<open>allocate()\<close> returned; \<^verbatim>\<open>deallocate\<close> of it fails its
  assertion instead of making it the free head.
\<close>

theorem free_head_null_iff_counterexample:
  "malloc_block_ok (unat (4 * 2863311532 :: uint_t)) MIN_BLOCK_ALIGN
       (zeroed_block_at 64 (unat (4 * 2863311532 :: uint_t)) MIN_BLOCK_ALIGN)
   \<and> fresh_run (zeroed_block_at 64) 2863311532 4
        [Allocate, Allocate, Allocate, Allocate, Deallocate 64, Deallocate 1431655832,
         Deallocate 2863311596, Allocate, Allocate, Allocate] []
      = Inr ([64, 2863311596, 1431655832, 68, 2863311596, 64, 2863311600], 0, 0,
             [2863311600, 64, 2863311596, 68], [])
   \<and> fresh_run (zeroed_block_at 64) 2863311532 4
        [Allocate, Allocate, Allocate, Allocate, Deallocate 64, Deallocate 1431655832,
         Deallocate 2863311596, Allocate, Allocate, Allocate, Deallocate 2863311600] []
      = Inl (Faulted AssertionFailed)"
  using malloc_ok_wrap4 run_past4_10 run_past4_11 by simp

text \<open>
  C10. With capacity 0 nothing stops construction, whatever the allocator returns: the pool
  has free count 0, every \<^verbatim>\<open>allocate()\<close> returns null and leaves it unchanged,
  \<^verbatim>\<open>allocation_count\<close> is 0 and the assertion of the destructor holds.
\<close>

theorem zero_capacity_pool:
  "\<exists>s. MemoryPoolBase_ctor malloc_block es 0 = Inr s \<and> max_entries s = 0
      \<and> num_free_entries s = 0
      \<and> (\<forall>k. allocate_n k s = Inr (replicate k 0, s))
      \<and> allocation_count (get_stats s) = 0
      \<and> MemoryPoolBase_dtor s = Inr ()"
proof -
  define s where "s = \<lparr>max_entries = 0, entry_size = es, num_free_entries = 0,
      pool_mem = fst (malloc_block 0 MIN_BLOCK_ALIGN),
      next_free = fst (malloc_block 0 MIN_BLOCK_ALIGN),
      block = snd (malloc_block 0 MIN_BLOCK_ALIGN)\<rparr>"
  have "MemoryPoolBase_ctor malloc_block es 0 = Inr s"
    by (simp add: MemoryPoolBase_ctor_def s_def init_free_list_stop Let_def)
  moreover have "num_free_entries s = 0" "max_entries s = 0" by (simp_all add: s_def)
  ultimately show ?thesis
    by (auto simp add: allocate_n_empty get_stats_def MemoryPoolBase_dtor_def)
qed

theorem zero_capacity_pool_witness:
  "\<exists>s. MemoryPoolBase_ctor failing_malloc 4 0 = Inr s \<and> max_entries s = 0
      \<and> num_free_entries s = 0
      \<and> (\<forall>k. allocate_n k s = Inr (replicate k 0, s))
      \<and> allocation_count (get_stats s) = 0
      \<and> MemoryPoolBase_dtor s = Inr ()"
  by (rule zero_capacity_pool)

end
